theory Spec2Isabelle
  imports Complex_Main
begin

section \<open>Data model of \<open>src/App.tsx\<close>\<close>

text \<open>
  The TypeScript types \<open>Person\<close>, \<open>Item\<close>, \<open>Payment\<close> and \<open>ReceiptData\<close> become records.
  Several of them have fields called \<open>id\<close> and \<open>name\<close>; the record fields carry a prefix
  for the type they belong to. A JavaScript \<open>number\<close> is modelled as an exact \<open>real\<close>:
  amounts are finite, there is no rounding, and the literal \<open>0.01\<close> is the fraction
  \<open>1 / 100\<close>. The values \<open>NaN\<close> and \<open>Infinity\<close> are outside the model.
\<close>

record person =
  p_id :: string
  p_name :: string
  p_color :: string

record item =
  i_id :: string
  i_name :: string
  price :: real
  qty :: real
  sharedBy :: "string list"

record payment =
  pay_id :: string
  personId :: string
  amount :: real
  pay_note :: string

record receiptData =
  b_id :: string
  b_name :: string
  items :: "item list"
  subtotal :: real
  tax :: real
  serviceCharge :: real
  total_b :: real

text \<open>
  The accumulator of \<open>calculatePersonTotals\<close> (the value type of its \<open>personTotals\<close>
  dictionary) and the objects it returns, \<open>{...person, ...stats, amountPaid, balance}\<close>.
\<close>

record stats =
  itemTotal :: real
  taxShare :: real
  serviceShare :: real
  finalTotal :: real

record person_totals = stats +
  t_id :: string
  t_name :: string
  t_color :: string
  amountPaid :: real
  balance :: real

record settlement =
  s_from :: string
  s_to :: string
  s_amount :: real

section \<open>The settlement solver: \<open>calculateSettlements\<close>\<close>

text \<open>
  Lines 458 to 483. The state of the \<open>while\<close> loop: the two arrays \<open>debtors\<close> and
  \<open>creditors\<close> (whose \<open>balance\<close> fields the loop overwrites), the cursors \<open>d\<close> and
  \<open>c\<close>, and the list \<open>settlements\<close> built so far.
\<close>

type_synonym loop_state =
  "person_totals list \<times> person_totals list \<times> nat \<times> nat \<times> settlement list"

fun running :: "loop_state \<Rightarrow> bool" where
  "running (debtors, creditors, d, c, settlements) =
     (d < length debtors \<and> c < length creditors)"

text \<open>One pass through the loop body. It is only run when both cursors are in range.\<close>

fun settle_step :: "loop_state \<Rightarrow> loop_state" where
  "settle_step (debtors, creditors, d, c, settlements) =
     (let amount' = min (balance (debtors ! d)) (balance (creditors ! c));
          settlements' = settlements @
            [\<lparr>s_from = t_name (debtors ! d), s_to = t_name (creditors ! c),
              s_amount = amount'\<rparr>];
          debtors' = debtors[d := (debtors ! d)\<lparr>balance := balance (debtors ! d) - amount'\<rparr>];
          creditors' =
            creditors[c := (creditors ! c)\<lparr>balance := balance (creditors ! c) - amount'\<rparr>];
          d' = (if balance (debtors' ! d) < 1 / 100 then d + 1 else d);
          c' = (if balance (creditors' ! c) < 1 / 100 then c + 1 else c)
      in (debtors', creditors', d', c', settlements'))"

fun cursor_room :: "loop_state \<Rightarrow> nat" where
  "cursor_room (debtors, creditors, d, c, settlements) =
     (length debtors - d) + (length creditors - c)"

text \<open>
  The \<open>while\<close> loop. It terminates because each pass moves a cursor: \<open>amount\<close> is the
  smaller of the two balances, so one of them drops to zero, which is below \<open>0.01\<close>.
\<close>

function settle_loop :: "loop_state \<Rightarrow> loop_state" where
  "settle_loop s = (if running s then settle_loop (settle_step s) else s)"
  by pat_completeness auto
termination
proof (relation "measure cursor_room")
  show "wf (measure cursor_room)"
    by simp
next
  fix s :: loop_state
  assume run: "running s"
  obtain debtors creditors d c settlements
    where s: "s = (debtors, creditors, d, c, settlements)"
    by (cases s) auto
  from run s have dc: "d < length debtors" "c < length creditors"
    by simp_all
  have "cursor_room (settle_step s) < cursor_room s"
  proof (cases "balance (debtors ! d) \<le> balance (creditors ! c)")
    case True
    with dc show ?thesis
      unfolding s by (simp add: Let_def min_def) linarith
  next
    case False
    with dc show ?thesis
      unfolding s by (simp add: Let_def min_def) linarith
  qed
  then show "(settle_step s, s) \<in> measure cursor_room"
    by simp
qed

declare settle_loop.simps [simp del]

text \<open>
  What precedes the loop: the two filtered copies of \<open>totals\<close>, the debtors with
  \<open>Math.abs\<close> of their balance, both cursors at \<open>0\<close> and no settlement yet.
\<close>

definition settle_start :: "person_totals list \<Rightarrow> loop_state" where
  "settle_start totals =
     (let debtors = map (\<lambda>t. t\<lparr>balance := \<bar>balance t\<bar>\<rparr>)
                      (filter (\<lambda>t. balance t < - (1 / 100)) totals);
          creditors = map (\<lambda>t. t) (filter (\<lambda>t. balance t > 1 / 100) totals)
      in (debtors, creditors, 0, 0, []))"

definition calculateSettlements :: "person_totals list \<Rightarrow> settlement list" where
  "calculateSettlements totals = snd (snd (snd (snd (settle_loop (settle_start totals)))))"

section \<open>The settlement loop on all values of a number\<close>

text \<open>
  A JavaScript number is a finite value, \<open>Infinity\<close>, \<open>-Infinity\<close> or \<open>NaN\<close>. On the
  finite values the operations below are those of \<open>real\<close>, without rounding, as in the
  rest of the theory; on the others they follow the language: a comparison with \<open>NaN\<close>
  is false, \<open>Math.min\<close> and \<open>-\<close> with \<open>NaN\<close> give \<open>NaN\<close>, and the difference of two
  equal infinities is \<open>NaN\<close>.
\<close>

datatype js_number = Fin real | PInf | NInf | NaN

fun js_lt :: "js_number \<Rightarrow> js_number \<Rightarrow> bool" where
  "js_lt NaN b = False"
| "js_lt a NaN = False"
| "js_lt (Fin a) (Fin b) = (a < b)"
| "js_lt (Fin a) PInf = True"
| "js_lt (Fin a) NInf = False"
| "js_lt PInf b = False"
| "js_lt NInf NInf = False"
| "js_lt NInf b = True"

fun js_min :: "js_number \<Rightarrow> js_number \<Rightarrow> js_number" where
  "js_min NaN b = NaN"
| "js_min a NaN = NaN"
| "js_min NInf b = NInf"
| "js_min a NInf = NInf"
| "js_min PInf b = b"
| "js_min a PInf = a"
| "js_min (Fin a) (Fin b) = Fin (min a b)"

fun js_minus :: "js_number \<Rightarrow> js_number \<Rightarrow> js_number" where
  "js_minus NaN b = NaN"
| "js_minus a NaN = NaN"
| "js_minus (Fin a) (Fin b) = Fin (a - b)"
| "js_minus (Fin a) PInf = NInf"
| "js_minus (Fin a) NInf = PInf"
| "js_minus PInf PInf = NaN"
| "js_minus PInf b = PInf"
| "js_minus NInf NInf = NaN"
| "js_minus NInf b = NInf"

fun js_abs :: "js_number \<Rightarrow> js_number" where
  "js_abs (Fin a) = Fin \<bar>a\<bar>"
| "js_abs PInf = PInf"
| "js_abs NInf = PInf"
| "js_abs NaN = NaN"

text \<open>
  Lines 458 to 483 once more, on entries that hold a name and such a number. Nothing
  bounds the number of passes here, so the loop takes fuel: \<open>None\<close> says that the fuel
  did not suffice for the loop to end.
\<close>

type_synonym js_state =
  "(string \<times> js_number) list \<times> (string \<times> js_number) list \<times> nat \<times> nat \<times>
   (string \<times> string \<times> js_number) list"

fun js_running :: "js_state \<Rightarrow> bool" where
  "js_running (debtors, creditors, d, c, settlements) =
     (d < length debtors \<and> c < length creditors)"

fun js_step :: "js_state \<Rightarrow> js_state" where
  "js_step (debtors, creditors, d, c, settlements) =
     (let amount' = js_min (snd (debtors ! d)) (snd (creditors ! c));
          settlements' = settlements @ [(fst (debtors ! d), fst (creditors ! c), amount')];
          debtors' = debtors[d := (fst (debtors ! d), js_minus (snd (debtors ! d)) amount')];
          creditors' =
            creditors[c := (fst (creditors ! c), js_minus (snd (creditors ! c)) amount')];
          d' = (if js_lt (snd (debtors' ! d)) (Fin (1 / 100)) then d + 1 else d);
          c' = (if js_lt (snd (creditors' ! c)) (Fin (1 / 100)) then c + 1 else c)
      in (debtors', creditors', d', c', settlements'))"

fun js_loop :: "nat \<Rightarrow> js_state \<Rightarrow> js_state option" where
  "js_loop 0 s = None"
| "js_loop (Suc fuel) s = (if js_running s then js_loop fuel (js_step s) else Some s)"

definition js_start :: "(string \<times> js_number) list \<Rightarrow> js_state" where
  "js_start totals =
     (let debtors = map (\<lambda>t. (fst t, js_abs (snd t)))
                      (filter (\<lambda>t. js_lt (snd t) (Fin (- (1 / 100)))) totals);
          creditors = map (\<lambda>t. t) (filter (\<lambda>t. js_lt (Fin (1 / 100)) (snd t)) totals)
      in (debtors, creditors, 0, 0, []))"

text \<open>Finite balances, and a state of finite balances, as input and state of this loop.\<close>

definition finite_totals :: "person_totals list \<Rightarrow> (string \<times> js_number) list" where
  "finite_totals totals = map (\<lambda>t. (t_name t, Fin (balance t))) totals"

fun finite_state :: "loop_state \<Rightarrow> js_state" where
  "finite_state (debtors, creditors, d, c, settlements) =
     (finite_totals debtors, finite_totals creditors, d, c,
      map (\<lambda>s. (s_from s, s_to s, Fin (s_amount s))) settlements)"

text \<open>
  The states of the run on a debtor at \<open>-Infinity\<close> and a creditor at \<open>Infinity\<close>: after
  the first pass both balances are \<open>NaN\<close> and both cursors stay where they are.
\<close>

fun stuck :: "js_state \<Rightarrow> bool" where
  "stuck (debtors, creditors, d, c, settlements) =
     (d = 0 \<and> c = 0 \<and>
      ((debtors = [(''A'', PInf)] \<and> creditors = [(''B'', PInf)]) \<or>
       (debtors = [(''A'', NaN)] \<and> creditors = [(''B'', NaN)])))"

section \<open>The allocator: \<open>calculatePersonTotals\<close>\<close>

text \<open>
  Lines 397 to 456. The function reads the component state \<open>people\<close>, \<open>bills\<close> and
  \<open>payments\<close>; the model takes them as arguments. Its two dictionaries are maps from
  person ids: a key is present once it has been assigned, and the properties that a
  JavaScript object inherits are left out (no id that \<open>generateId\<close> makes is the name of
  one). Reading a property of \<open>undefined\<close> throws a \<open>TypeError\<close> in JavaScript;
  arithmetic on \<open>undefined\<close> and a division by zero throw nothing but yield \<open>NaN\<close> or
  \<open>Infinity\<close>, which no \<open>real\<close> stands for. Both outcomes are results of the model, so
  that their absence is a theorem and not a convention.
\<close>

datatype failure = TypeError | NonFinite

definition zero_stats :: stats where
  "zero_stats = \<lparr>itemTotal = 0, taxShare = 0, serviceShare = 0, finalTotal = 0\<rparr>"

definition init_personTotals :: "person list \<Rightarrow> (string \<rightharpoonup> stats)" where
  "init_personTotals people =
     fold (\<lambda>p personTotals. personTotals(p_id p \<mapsto> zero_stats)) people Map.empty"

definition init_billPersonItemTotals :: "person list \<Rightarrow> (string \<rightharpoonup> real)" where
  "init_billPersonItemTotals people =
     fold (\<lambda>p billPersonItemTotals. billPersonItemTotals(p_id p \<mapsto> 0)) people Map.empty"

text \<open>The body of \<open>item.sharedBy.forEach\<close>: ids without an entry are skipped.\<close>

definition add_split :: "real \<Rightarrow> string \<Rightarrow> (string \<rightharpoonup> real) \<Rightarrow> (string \<rightharpoonup> real)" where
  "add_split splitPrice personId' billPersonItemTotals =
     (case billPersonItemTotals personId' of
        None \<Rightarrow> billPersonItemTotals
      | Some v \<Rightarrow> billPersonItemTotals(personId' \<mapsto> v + splitPrice))"

text \<open>The body of \<open>bill.items.forEach\<close>, on the pair of the two accumulators.\<close>

definition item_step ::
  "item \<Rightarrow> (string \<rightharpoonup> real) \<times> real \<Rightarrow> (string \<rightharpoonup> real) \<times> real" where
  "item_step item' acc =
     (case acc of (billPersonItemTotals, billAssignedSubtotal) \<Rightarrow>
        if length (sharedBy item') > 0 then
          (let splitPrice = price item' / real (length (sharedBy item'))
           in (fold (add_split splitPrice) (sharedBy item') billPersonItemTotals,
               billAssignedSubtotal + price item'))
        else (billPersonItemTotals, billAssignedSubtotal))"

definition bill_items :: "person list \<Rightarrow> receiptData \<Rightarrow> (string \<rightharpoonup> real) \<times> real" where
  "bill_items people bill =
     fold item_step (items bill) (init_billPersonItemTotals people, 0)"

text \<open>\<open>bill.subtotal || 1\<close> is \<open>1\<close> when the stored subtotal is zero.\<close>

definition baseForProportion :: "real \<Rightarrow> receiptData \<Rightarrow> real" where
  "baseForProportion billAssignedSubtotal bill =
     (if billAssignedSubtotal > 0 then billAssignedSubtotal
      else if subtotal bill \<noteq> 0 then subtotal bill else 1)"

text \<open>
  The constants \<open>itemTotal\<close>, \<open>taxShare\<close> and \<open>serviceShare\<close> that the second
  \<open>people.forEach\<close> computes for one person and one bill.
\<close>

definition person_shares ::
  "receiptData \<Rightarrow> (string \<rightharpoonup> real) \<Rightarrow> real \<Rightarrow> person \<Rightarrow> failure + real \<times> real \<times> real" where
  "person_shares bill billPersonItemTotals base person' =
     (case billPersonItemTotals (p_id person') of
        None \<Rightarrow> Inl NonFinite
      | Some itemTotal' \<Rightarrow>
          if base = 0 then Inl NonFinite
          else
            (let proportion = itemTotal' / base;
                 taxShare' = tax bill * proportion;
                 serviceShare' = serviceCharge bill * proportion
             in Inr (itemTotal', taxShare', serviceShare')))"

definition add_shares :: "stats \<Rightarrow> real \<times> real \<times> real \<Rightarrow> stats" where
  "add_shares st sh =
     (case sh of (itemTotal', taxShare', serviceShare') \<Rightarrow>
        st\<lparr>itemTotal := itemTotal st + itemTotal',
           taxShare := taxShare st + taxShare',
           serviceShare := serviceShare st + serviceShare',
           finalTotal := finalTotal st + (itemTotal' + taxShare' + serviceShare')\<rparr>)"

definition person_step ::
  "receiptData \<Rightarrow> (string \<rightharpoonup> real) \<Rightarrow> real \<Rightarrow> person \<Rightarrow> (string \<rightharpoonup> stats)
     \<Rightarrow> failure + (string \<rightharpoonup> stats)" where
  "person_step bill billPersonItemTotals base person' personTotals =
     (case person_shares bill billPersonItemTotals base person' of
        Inl e \<Rightarrow> Inl e
      | Inr sh \<Rightarrow>
          (case personTotals (p_id person') of
             None \<Rightarrow> Inl TypeError
           | Some st \<Rightarrow> Inr (personTotals(p_id person' \<mapsto> add_shares st sh))))"

text \<open>\<open>forEach\<close> and \<open>map\<close> with a body that may fail: the first failure ends the run.\<close>

fun for_each :: "('a \<Rightarrow> 's \<Rightarrow> failure + 's) \<Rightarrow> 'a list \<Rightarrow> 's \<Rightarrow> failure + 's" where
  "for_each f [] s = Inr s"
| "for_each f (x # xs) s =
     (case f x s of Inl e \<Rightarrow> Inl e | Inr s' \<Rightarrow> for_each f xs s')"

fun map_each :: "('a \<Rightarrow> failure + 'b) \<Rightarrow> 'a list \<Rightarrow> failure + 'b list" where
  "map_each f [] = Inr []"
| "map_each f (x # xs) =
     (case f x of
        Inl e \<Rightarrow> Inl e
      | Inr y \<Rightarrow> (case map_each f xs of Inl e \<Rightarrow> Inl e | Inr ys \<Rightarrow> Inr (y # ys)))"

text \<open>The body of \<open>bills.forEach\<close>.\<close>

definition bill_step ::
  "person list \<Rightarrow> receiptData \<Rightarrow> (string \<rightharpoonup> stats) \<Rightarrow> failure + (string \<rightharpoonup> stats)" where
  "bill_step people bill personTotals =
     (case bill_items people bill of (billPersonItemTotals, billAssignedSubtotal) \<Rightarrow>
        for_each
          (person_step bill billPersonItemTotals
             (baseForProportion billAssignedSubtotal bill))
          people personTotals)"

definition paid_by :: "payment list \<Rightarrow> person \<Rightarrow> real" where
  "paid_by payments person' =
     foldl (\<lambda>sum' p. sum' + amount p) 0
       (filter (\<lambda>p. personId p = p_id person') payments)"

text \<open>The body of the final \<open>people.map\<close>.\<close>

definition person_result ::
  "(string \<rightharpoonup> stats) \<Rightarrow> payment list \<Rightarrow> person \<Rightarrow> failure + person_totals" where
  "person_result personTotals payments person' =
     (case personTotals (p_id person') of
        None \<Rightarrow> Inl TypeError
      | Some st \<Rightarrow>
          (let amountPaid' = paid_by payments person'
           in Inr \<lparr>itemTotal = itemTotal st, taxShare = taxShare st,
                   serviceShare = serviceShare st, finalTotal = finalTotal st,
                   t_id = p_id person', t_name = p_name person', t_color = p_color person',
                   amountPaid = amountPaid', balance = amountPaid' - finalTotal st\<rparr>))"

definition calculatePersonTotals ::
  "person list \<Rightarrow> receiptData list \<Rightarrow> payment list \<Rightarrow> failure + person_totals list" where
  "calculatePersonTotals people bills payments =
     (case for_each (bill_step people) bills (init_personTotals people) of
        Inl e \<Rightarrow> Inl e
      | Inr personTotals \<Rightarrow> map_each (person_result personTotals payments) people)"

text \<open>
  The shares of one person in one bill, as the loop over \<open>people\<close> computes them from
  the accumulators of that bill.
\<close>

definition bill_shares ::
  "person list \<Rightarrow> receiptData \<Rightarrow> person \<Rightarrow> failure + real \<times> real \<times> real" where
  "bill_shares people bill person' =
     (case bill_items people bill of (billPersonItemTotals, billAssignedSubtotal) \<Rightarrow>
        person_shares bill billPersonItemTotals
          (baseForProportion billAssignedSubtotal bill) person')"

section \<open>Notions of the specification\<close>

text \<open>
  The assigned subtotal of a bill in the words of the specification: the sum of the
  prices of the items with at least one assignee.
\<close>

definition assignedSubtotal :: "receiptData \<Rightarrow> real" where
  "assignedSubtotal bill =
     sum_list (map price (filter (\<lambda>i. sharedBy i \<noteq> []) (items bill)))"

text \<open>What the transfers of a list send from, and bring to, the bearer of a name.\<close>

definition sent :: "string \<Rightarrow> settlement list \<Rightarrow> real" where
  "sent n ss = sum_list (map s_amount (filter (\<lambda>s. s_from s = n) ss))"

definition received :: "string \<Rightarrow> settlement list \<Rightarrow> real" where
  "received n ss = sum_list (map s_amount (filter (\<lambda>s. s_to s = n) ss))"

text \<open>
  The reference algorithm of the specification, on lists of names with remaining
  balances. The cursor of a list is the head of what is left of it: a step transfers
  the smaller of the two remaining balances from the current debtor to the current
  creditor, lowers both by that amount, and then drops the debtor if its remaining
  balance is below \<open>0.01\<close> and, separately, the creditor if its remaining balance is.
\<close>

function sweep :: "(string \<times> real) list \<Rightarrow> (string \<times> real) list \<Rightarrow> settlement list" where
  "sweep [] cs = []"
| "sweep (dh # ds) [] = []"
| "sweep ((dn, dr) # ds) ((cn, cr) # cs) =
     (let a = min dr cr
      in \<lparr>s_from = dn, s_to = cn, s_amount = a\<rparr> #
         sweep (if dr - a < 1 / 100 then ds else (dn, dr - a) # ds)
               (if cr - a < 1 / 100 then cs else (cn, cr - a) # cs))"
  by pat_completeness auto
termination
  by (relation "measure (\<lambda>(ds, cs). length ds + length cs)") (auto simp: min_def)

definition settle_reference :: "person_totals list \<Rightarrow> settlement list" where
  "settle_reference totals =
     sweep (map (\<lambda>t. (t_name t, \<bar>balance t\<bar>)) (filter (\<lambda>t. balance t < - (1 / 100)) totals))
           (map (\<lambda>t. (t_name t, balance t)) (filter (\<lambda>t. balance t > 1 / 100) totals))"

section \<open>Notions used to state the properties\<close>

text \<open>
  What is left of an array from a cursor on, as names with remaining balances, and the
  transfers the reference algorithm still adds to those of a loop state.
\<close>

fun view :: "person_totals list \<Rightarrow> nat \<Rightarrow> (string \<times> real) list" where
  "view xs i = map (\<lambda>t. (t_name t, balance t)) (drop i xs)"

fun reference_of :: "loop_state \<Rightarrow> settlement list" where
  "reference_of (debtors, creditors, d, c, settlements) =
     settlements @ sweep (view debtors d) (view creditors c)"

text \<open>
  Sums over a list of names with balances: what the bearer of a name holds, and the
  whole; and the sum of the amounts of a list of transfers.
\<close>

definition owed :: "string \<Rightarrow> (string \<times> real) list \<Rightarrow> real" where
  "owed n es = sum_list (map snd (filter (\<lambda>e. fst e = n) es))"

definition open_total :: "(string \<times> real) list \<Rightarrow> real" where
  "open_total es = sum_list (map snd es)"

definition moved :: "settlement list \<Rightarrow> real" where
  "moved ss = sum_list (map s_amount ss)"

text \<open>Observations of a loop state.\<close>

fun debtors_done :: "loop_state \<Rightarrow> bool" where
  "debtors_done (debtors, creditors, d, c, settlements) = (d = length debtors)"

fun creditors_done :: "loop_state \<Rightarrow> bool" where
  "creditors_done (debtors, creditors, d, c, settlements) = (c = length creditors)"

fun advanced :: "loop_state \<Rightarrow> loop_state \<Rightarrow> bool" where
  "advanced (debtors, creditors, d, c, settlements) (debtors', creditors', d', c', settlements') =
     (d \<le> d' \<and> c \<le> c' \<and> d + c < d' + c')"

fun open_gap :: "loop_state \<Rightarrow> real" where
  "open_gap (debtors, creditors, d, c, settlements) =
     sum_list (map balance debtors) - sum_list (map balance creditors)"

fun passed_settled :: "loop_state \<Rightarrow> bool" where
  "passed_settled (debtors, creditors, d, c, settlements) =
     (d \<le> length debtors \<and> c \<le> length creditors \<and>
      (\<forall>i<d. balance (debtors ! i) < 1 / 100) \<and>
      (\<forall>j<c. balance (creditors ! j) < 1 / 100))"

fun ahead_fresh :: "loop_state \<Rightarrow> bool" where
  "ahead_fresh (debtors, creditors, d, c, settlements) =
     ((\<forall>i. d \<le> i \<and> i < length debtors \<longrightarrow> 1 / 100 \<le> balance (debtors ! i)) \<and>
      (\<forall>j. c \<le> j \<and> j < length creditors \<longrightarrow> 1 / 100 \<le> balance (creditors ! j)) \<and>
      (\<forall>s\<in>set settlements. 1 / 100 \<le> s_amount s))"

fun current_debtor :: "loop_state \<Rightarrow> real" where
  "current_debtor (debtors, creditors, d, c, settlements) = balance (debtors ! d)"

fun current_creditor :: "loop_state \<Rightarrow> real" where
  "current_creditor (debtors, creditors, d, c, settlements) = balance (creditors ! c)"

fun debtors_of :: "loop_state \<Rightarrow> person_totals list" where
  "debtors_of (debtors, creditors, d, c, settlements) = debtors"

fun creditors_of :: "loop_state \<Rightarrow> person_totals list" where
  "creditors_of (debtors, creditors, d, c, settlements) = creditors"

text \<open>
  An array of the loop against the array it started from: the same people in the same
  places, no balance below zero or above where it started. And, for a name, what the
  balances of its bearers have been lowered by.
\<close>

definition lowered :: "person_totals list \<Rightarrow> person_totals list \<Rightarrow> bool" where
  "lowered orig cur =
     (length cur = length orig \<and>
      (\<forall>i<length orig. t_name (cur ! i) = t_name (orig ! i) \<and>
         0 \<le> balance (cur ! i) \<and> balance (cur ! i) \<le> balance (orig ! i)))"

definition paid_off :: "string \<Rightarrow> person_totals list \<Rightarrow> person_totals list \<Rightarrow> real" where
  "paid_off n orig cur =
     sum_list (map (\<lambda>(t, t'). if t_name t = n then balance t - balance t' else 0) (zip orig cur))"

fun settled_from :: "person_totals list \<Rightarrow> person_totals list \<Rightarrow> loop_state \<Rightarrow> bool" where
  "settled_from D C (debtors, creditors, d, c, settlements) =
     (lowered D debtors \<and> lowered C creditors \<and>
      (\<forall>n. sent n settlements = paid_off n D debtors) \<and>
      (\<forall>n. received n settlements = paid_off n C creditors) \<and>
      sum_list (map balance debtors) + moved settlements = sum_list (map balance D) \<and>
      sum_list (map balance creditors) + moved settlements = sum_list (map balance C))"

text \<open>Sample data for the concrete instances below.\<close>

definition mk_totals :: "string \<Rightarrow> real \<Rightarrow> person_totals" where
  "mk_totals n b = \<lparr>itemTotal = 0, taxShare = 0, serviceShare = 0, finalTotal = - b,
     t_id = n, t_name = n, t_color = ''bg-red-500'', amountPaid = 0, balance = b\<rparr>"

text \<open>
  Two people owe \<open>1.008\<close> each; two are owed \<open>1\<close> each and a fifth \<open>0.016\<close>. Both sides
  add up to \<open>2.016\<close>.
\<close>

definition residue_totals :: "person_totals list" where
  "residue_totals = [mk_totals ''A'' (- (126 / 125)), mk_totals ''B'' (- (126 / 125)),
     mk_totals ''C'' 1, mk_totals ''D'' 1, mk_totals ''E'' (2 / 125)]"

text \<open>One person owes \<open>30\<close>, one is owed \<open>30\<close>, and one is within \<open>0.01\<close> of zero.\<close>

definition band_totals :: "person_totals list" where
  "band_totals = [mk_totals ''A'' (- 30), mk_totals ''B'' (1 / 200), mk_totals ''C'' 30]"

text \<open>
  Closed forms of what the allocator computes. The share of a person id in an item is
  the split price once for every occurrence of the id in \<open>sharedBy\<close>; the item total
  of an id in a bill adds the shares of the bill's items; \<open>bill_base\<close> is the base of
  the proportion, from the assigned subtotal of the specification.
\<close>

definition item_share :: "item \<Rightarrow> string \<Rightarrow> real" where
  "item_share item' k =
     (if sharedBy item' = [] then 0
      else price item' / real (length (sharedBy item')) * real (count_list (sharedBy item') k))"

definition bill_item_total :: "receiptData \<Rightarrow> string \<Rightarrow> real" where
  "bill_item_total bill k = sum_list (map (\<lambda>i. item_share i k) (items bill))"

definition bill_base :: "receiptData \<Rightarrow> real" where
  "bill_base bill = baseForProportion (assignedSubtotal bill) bill"

definition id_shares :: "receiptData \<Rightarrow> string \<Rightarrow> real \<times> real \<times> real" where
  "id_shares bill k =
     (bill_item_total bill k,
      tax bill * (bill_item_total bill k / bill_base bill),
      serviceCharge bill * (bill_item_total bill k / bill_base bill))"

text \<open>
  The part of an item's price that reaches people of the list: the split price once for
  every entry of \<open>sharedBy\<close> that is the id of a person.
\<close>

definition known_share :: "person list \<Rightarrow> item \<Rightarrow> real" where
  "known_share people item' =
     (if sharedBy item' = [] then 0
      else price item' / real (length (sharedBy item')) *
           real (length (filter (\<lambda>u. u \<in> p_id ` set people) (sharedBy item'))))"

text \<open>
  Adding amounts to an accumulator, and adding a triple of shares \<open>r\<close> times: a person
  id that occurs \<open>r\<close> times in \<open>people\<close> is visited \<open>r\<close> times by the loop over
  \<open>people\<close>.
\<close>

definition plus_stats :: "stats \<Rightarrow> real \<Rightarrow> real \<Rightarrow> real \<Rightarrow> real \<Rightarrow> stats" where
  "plus_stats st a b c f =
     \<lparr>itemTotal = itemTotal st + a, taxShare = taxShare st + b,
      serviceShare = serviceShare st + c, finalTotal = finalTotal st + f\<rparr>"

definition scaled_plus :: "stats \<Rightarrow> real \<Rightarrow> real \<times> real \<times> real \<Rightarrow> stats" where
  "scaled_plus st r sh =
     (case sh of (a, b, c) \<Rightarrow> plus_stats st (r * a) (r * b) (r * c) (r * (a + b + c)))"

definition occurrences :: "person list \<Rightarrow> string \<Rightarrow> real" where
  "occurrences people k = real (count_list (map p_id people) k)"

text \<open>The sums over all bills, and the record the allocator returns for a person.\<close>

definition items_of :: "receiptData list \<Rightarrow> string \<Rightarrow> real" where
  "items_of bills k = sum_list (map (\<lambda>b. bill_item_total b k) bills)"

definition tax_of :: "receiptData list \<Rightarrow> string \<Rightarrow> real" where
  "tax_of bills k = sum_list (map (\<lambda>b. tax b * (bill_item_total b k / bill_base b)) bills)"

definition service_of :: "receiptData list \<Rightarrow> string \<Rightarrow> real" where
  "service_of bills k =
     sum_list (map (\<lambda>b. serviceCharge b * (bill_item_total b k / bill_base b)) bills)"

definition totals_of :: "person list \<Rightarrow> receiptData list \<Rightarrow> payment list \<Rightarrow> person \<Rightarrow> person_totals" where
  "totals_of people bills payments p =
     \<lparr>itemTotal = occurrences people (p_id p) * items_of bills (p_id p),
      taxShare = occurrences people (p_id p) * tax_of bills (p_id p),
      serviceShare = occurrences people (p_id p) * service_of bills (p_id p),
      finalTotal = occurrences people (p_id p) *
        (items_of bills (p_id p) + tax_of bills (p_id p) + service_of bills (p_id p)),
      t_id = p_id p, t_name = p_name p, t_color = p_color p,
      amountPaid = paid_by payments p,
      balance = paid_by payments p - occurrences people (p_id p) *
        (items_of bills (p_id p) + tax_of bills (p_id p) + service_of bills (p_id p))\<rparr>"

text \<open>
  Sample session: three people; a bill with an item of \<open>200\<close> shared by the first two
  and an unassigned item of \<open>90\<close>, tax \<open>20\<close> and service charge \<open>10\<close>; the first
  person has paid \<open>230\<close>.
\<close>

definition sample_people :: "person list" where
  "sample_people =
     [\<lparr>p_id = ''p1'', p_name = ''A'', p_color = ''bg-red-500''\<rparr>,
      \<lparr>p_id = ''p2'', p_name = ''B'', p_color = ''bg-blue-500''\<rparr>,
      \<lparr>p_id = ''p3'', p_name = ''C'', p_color = ''bg-green-500''\<rparr>]"

definition mk_item :: "string \<Rightarrow> real \<Rightarrow> string list \<Rightarrow> item" where
  "mk_item n p sh = \<lparr>i_id = n, i_name = n, price = p, qty = 1, sharedBy = sh\<rparr>"

definition sample_bill :: receiptData where
  "sample_bill =
     \<lparr>b_id = ''b1'', b_name = ''Nota Baru'',
      items = [mk_item ''i1'' 200 [''p1'', ''p2''], mk_item ''i2'' 90 []],
      subtotal = 290, tax = 20, serviceCharge = 10, total_b = 320\<rparr>"

definition sample_payments :: "payment list" where
  "sample_payments = [\<lparr>pay_id = ''y1'', personId = ''p1'', amount = 230, pay_note = ''''\<rparr>]"

text \<open>
  A bill with a discount line: \<open>10\<close> for the first person and \<open>-10\<close> for the second,
  so that the assigned prices add up to zero; its stored subtotal is zero.
\<close>

definition discount_bill :: receiptData where
  "discount_bill =
     \<lparr>b_id = ''b2'', b_name = ''Nota Baru'',
      items = [mk_item ''i1'' 10 [''p1''], mk_item ''i2'' (- 10) [''p2'']],
      subtotal = 0, tax = 5, serviceCharge = 0, total_b = 5\<rparr>"

text \<open>The empty bill that the button for manual input creates.\<close>

definition manual_bill :: receiptData where
  "manual_bill =
     \<lparr>b_id = ''b3'', b_name = ''Nota Baru'', items = [],
      subtotal = 0, tax = 0, serviceCharge = 0, total_b = 0\<rparr>"

text \<open>A bill whose only item is shared by the first person and by an id of no person.\<close>

definition stray_bill :: receiptData where
  "stray_bill =
     \<lparr>b_id = ''b4'', b_name = ''Nota Baru'',
      items = [mk_item ''i1'' 90 [''p1'', ''zz'']],
      subtotal = 90, tax = 9, serviceCharge = 0, total_b = 99\<rparr>"

section \<open>The allocator in closed form\<close>

lemma add_split_apply:
  "add_split sp i m k = map_option (\<lambda>v. if k = i then v + sp else v) (m k)"
  by (cases "m i"; cases "m k"; cases "k = i"; simp add: add_split_def)

lemma fold_add_split:
  "fold (add_split sp) ids m k = map_option (\<lambda>v. v + sp * real (count_list ids k)) (m k)"
proof (induction ids arbitrary: m)
  case Nil
  show ?case
    by (simp add: option.map_ident)
next
  case (Cons i ids)
  have "fold (add_split sp) (i # ids) m k = fold (add_split sp) ids (add_split sp i m) k"
    by simp
  also have "\<dots> = map_option (\<lambda>v. v + sp * real (count_list ids k)) (add_split sp i m k)"
    by (rule Cons.IH)
  also have "\<dots> = map_option (\<lambda>v. v + sp * real (count_list ids k))
      (map_option (\<lambda>v. if k = i then v + sp else v) (m k))"
    by (simp only: add_split_apply)
  also have "\<dots> = map_option (\<lambda>v. v + sp * real (count_list (i # ids) k)) (m k)"
    by (cases "m k") (simp_all add: algebra_simps)
  finally show ?case .
qed

lemma item_step_closed:
  "item_step item' (m, s) =
     ((\<lambda>k. map_option (\<lambda>v. v + item_share item' k) (m k)),
      s + (if sharedBy item' \<noteq> [] then price item' else 0))"
proof (cases "sharedBy item' = []")
  case True
  then show ?thesis
    by (simp add: item_step_def item_share_def option.map_ident)
next
  case False
  then have "fold (add_split (price item' / real (length (sharedBy item')))) (sharedBy item') m =
      (\<lambda>k. map_option (\<lambda>v. v + item_share item' k) (m k))"
    by (intro ext) (simp add: fold_add_split item_share_def)
  with False show ?thesis
    by (simp add: item_step_def Let_def)
qed

lemma fold_item_step:
  "fold item_step its (m, s) =
     ((\<lambda>k. map_option (\<lambda>v. v + sum_list (map (\<lambda>i. item_share i k) its)) (m k)),
      s + sum_list (map price (filter (\<lambda>i. sharedBy i \<noteq> []) its)))"
proof (induction its arbitrary: m s)
  case Nil
  show ?case
    by (simp add: option.map_ident)
next
  case (Cons i its)
  show ?case
    by (simp add: item_step_closed Cons.IH option.map_comp comp_def add.assoc)
qed

lemma fold_people_init:
  "fold (\<lambda>p m. m(p_id p \<mapsto> z)) ps m0 k =
     (if k \<in> p_id ` set ps then Some z else m0 k)"
  by (induction ps arbitrary: m0) auto

lemma init_billPersonItemTotals_closed:
  "init_billPersonItemTotals people = (\<lambda>k. if k \<in> p_id ` set people then Some 0 else None)"
  by (intro ext) (simp add: init_billPersonItemTotals_def fold_people_init)

lemma init_personTotals_closed:
  "init_personTotals people =
     (\<lambda>k. if k \<in> p_id ` set people then Some zero_stats else None)"
  by (intro ext) (simp add: init_personTotals_def fold_people_init)

lemma bill_items_closed:
  "bill_items people bill =
     ((\<lambda>k. if k \<in> p_id ` set people then Some (bill_item_total bill k) else None),
      assignedSubtotal bill)"
proof -
  have "(\<lambda>k. map_option (\<lambda>v. v + sum_list (map (\<lambda>i. item_share i k) (items bill)))
          (if k \<in> p_id ` set people then Some 0 else None)) =
      (\<lambda>k. if k \<in> p_id ` set people then Some (bill_item_total bill k) else None)"
    by (intro ext) (simp add: bill_item_total_def)
  then show ?thesis
    by (simp add: bill_items_def init_billPersonItemTotals_closed fold_item_step
        assignedSubtotal_def)
qed

lemma baseForProportion_nonzero: "baseForProportion a bill \<noteq> 0"
  by (simp add: baseForProportion_def)

lemma person_shares_closed:
  assumes "p_id person' \<in> p_id ` set people"
  shows "person_shares bill (fst (bill_items people bill))
      (baseForProportion (snd (bill_items people bill)) bill) person' =
    Inr (id_shares bill (p_id person'))"
  using assms
  by (simp add: bill_items_closed person_shares_def baseForProportion_nonzero id_shares_def
      bill_base_def Let_def)

lemma bill_shares_closed:
  assumes "p_id person' \<in> p_id ` set people"
  shows "bill_shares people bill person' = Inr (id_shares bill (p_id person'))"
  using person_shares_closed [OF assms, of bill]
  by (simp add: bill_shares_def split_beta)

lemma add_shares_scaled: "add_shares st sh = scaled_plus st 1 sh"
  by (cases st; cases sh) (simp add: add_shares_def scaled_plus_def plus_stats_def)

lemma scaled_plus_twice:
  "scaled_plus (scaled_plus st r sh) r' sh = scaled_plus st (r + r') sh"
  by (cases sh) (simp add: scaled_plus_def plus_stats_def algebra_simps)

lemma scaled_plus_zero: "scaled_plus st 0 sh = st"
  by (cases sh) (simp add: scaled_plus_def plus_stats_def)

lemma for_each_person_step:
  assumes "\<forall>p\<in>set ps. p_id p \<in> p_id ` set people" and "\<forall>p\<in>set ps. pt (p_id p) \<noteq> None"
  shows "\<exists>pt'. for_each (person_step bill (fst (bill_items people bill))
        (baseForProportion (snd (bill_items people bill)) bill)) ps pt = Inr pt' \<and>
      (\<forall>k. pt' k = map_option (\<lambda>st. scaled_plus st (real (count_list (map p_id ps) k))
          (id_shares bill k)) (pt k))"
  using assms
proof (induction ps arbitrary: pt)
  case Nil
  show ?case
    by (simp add: scaled_plus_zero option.map_ident)
next
  case (Cons p ps)
  let ?f = "person_step bill (fst (bill_items people bill))
        (baseForProportion (snd (bill_items people bill)) bill)"
  from Cons.prems obtain st where st: "pt (p_id p) = Some st"
    by auto
  from Cons.prems have "p_id p \<in> p_id ` set people"
    by simp
  then have sh: "person_shares bill (fst (bill_items people bill))
      (baseForProportion (snd (bill_items people bill)) bill) p = Inr (id_shares bill (p_id p))"
    by (rule person_shares_closed)
  define pt1 where "pt1 = pt(p_id p \<mapsto> add_shares st (id_shares bill (p_id p)))"
  have step: "?f p pt = Inr pt1"
    by (simp add: person_step_def sh st pt1_def)
  have "\<forall>q\<in>set ps. p_id q \<in> p_id ` set people" and "\<forall>q\<in>set ps. pt1 (p_id q) \<noteq> None"
    using Cons.prems by (auto simp: pt1_def)
  from Cons.IH [OF this] obtain pt' where rest: "for_each ?f ps pt1 = Inr pt'"
    and pt': "\<forall>k. pt' k = map_option (\<lambda>st. scaled_plus st (real (count_list (map p_id ps) k))
          (id_shares bill k)) (pt1 k)"
    by blast
  have "pt' k = map_option (\<lambda>st. scaled_plus st (real (count_list (map p_id (p # ps)) k))
          (id_shares bill k)) (pt k)" for k
  proof (cases "k = p_id p")
    case True
    then show ?thesis
      using pt' [rule_format, of k] st
      by (simp add: pt1_def add_shares_scaled scaled_plus_twice add.commute)
  next
    case False
    then show ?thesis
      using pt' [rule_format, of k] by (auto simp: pt1_def)
  qed
  moreover have "for_each ?f (p # ps) pt = Inr pt'"
    using step rest by simp
  ultimately show ?case
    by blast
qed

lemma bill_step_closed:
  assumes "\<forall>p\<in>set people. pt (p_id p) \<noteq> None"
  shows "\<exists>pt'. bill_step people bill pt = Inr pt' \<and>
      (\<forall>k. pt' k = map_option (\<lambda>st. scaled_plus st (occurrences people k) (id_shares bill k)) (pt k))"
proof -
  have "\<forall>p\<in>set people. p_id p \<in> p_id ` set people"
    by simp
  from for_each_person_step [OF this assms, of bill] show ?thesis
    by (simp add: bill_step_def split_beta occurrences_def)
qed

lemma for_each_bill_step:
  assumes "\<forall>p\<in>set people. pt (p_id p) \<noteq> None"
  shows "\<exists>pt'. for_each (bill_step people) bills pt = Inr pt' \<and>
      (\<forall>k. pt' k = map_option (\<lambda>st. scaled_plus st (occurrences people k)
          (items_of bills k, tax_of bills k, service_of bills k)) (pt k))"
  using assms
proof (induction bills arbitrary: pt)
  case Nil
  have "scaled_plus st r (0, 0, 0) = st" for st r
    by (cases st) (simp add: scaled_plus_def plus_stats_def)
  then show ?case
    by (simp add: items_of_def tax_of_def service_of_def option.map_ident)
next
  case (Cons b bills)
  from bill_step_closed [OF Cons.prems, of b] obtain pt1 where step: "bill_step people b pt = Inr pt1"
    and pt1: "\<forall>k. pt1 k = map_option (\<lambda>st. scaled_plus st (occurrences people k) (id_shares b k)) (pt k)"
    by blast
  from Cons.prems pt1 have "\<forall>p\<in>set people. pt1 (p_id p) \<noteq> None"
    by simp
  from Cons.IH [OF this] obtain pt' where rest: "for_each (bill_step people) bills pt1 = Inr pt'"
    and pt': "\<forall>k. pt' k = map_option (\<lambda>st. scaled_plus st (occurrences people k)
          (items_of bills k, tax_of bills k, service_of bills k)) (pt1 k)"
    by blast
  have "pt' k = map_option (\<lambda>st. scaled_plus st (occurrences people k)
          (items_of (b # bills) k, tax_of (b # bills) k, service_of (b # bills) k)) (pt k)" for k
    using pt' [rule_format, of k] pt1 [rule_format, of k]
    by (cases "pt k")
      (simp_all add: items_of_def tax_of_def service_of_def id_shares_def scaled_plus_def
        plus_stats_def algebra_simps)
  moreover have "for_each (bill_step people) (b # bills) pt = Inr pt'"
    using step rest by simp
  ultimately show ?case
    by blast
qed

lemma map_each_total:
  assumes "\<forall>x\<in>set xs. f x = Inr (g x)"
  shows "map_each f xs = Inr (map g xs)"
  using assms by (induction xs) simp_all

lemma calculatePersonTotals_closed:
  "calculatePersonTotals people bills payments = Inr (map (totals_of people bills payments) people)"
proof -
  have "\<forall>p\<in>set people. init_personTotals people (p_id p) \<noteq> None"
    by (simp add: init_personTotals_closed)
  from for_each_bill_step [OF this, of bills] obtain pt
    where run: "for_each (bill_step people) bills (init_personTotals people) = Inr pt"
    and pt: "\<forall>k. pt k = map_option (\<lambda>st. scaled_plus st (occurrences people k)
          (items_of bills k, tax_of bills k, service_of bills k)) (init_personTotals people k)"
    by blast
  have "person_result pt payments p = Inr (totals_of people bills payments p)"
    if "p \<in> set people" for p
    using that pt [rule_format, of "p_id p"]
    by (simp add: person_result_def init_personTotals_closed zero_stats_def scaled_plus_def
        plus_stats_def totals_of_def Let_def)
  then have "map_each (person_result pt payments) people =
      Inr (map (totals_of people bills payments) people)"
    by (intro map_each_total) simp
  with run show ?thesis
    by (simp add: calculatePersonTotals_def)
qed

lemma foldl_amounts: "foldl (\<lambda>sum' p. sum' + amount p) a ps = a + sum_list (map amount ps)"
  by (induction ps arbitrary: a) simp_all

lemma paid_by_sum:
  "paid_by payments p = sum_list (map amount (filter (\<lambda>pay. personId pay = p_id p) payments))"
  by (simp add: paid_by_def foldl_amounts)

lemma count_list_distinct:
  "distinct xs \<Longrightarrow> count_list xs x = (if x \<in> set xs then 1 else 0)"
  by (induction xs) auto

lemma item_share_absent: "k \<notin> set (sharedBy it) \<Longrightarrow> item_share it k = 0"
  by (simp add: item_share_def count_list_0_iff)

lemma item_share_distinct:
  assumes "distinct (sharedBy it)"
  shows "item_share it k =
    (if k \<in> set (sharedBy it) then price it / real (length (sharedBy it)) else 0)"
proof (cases "k \<in> set (sharedBy it)")
  case True
  with assms have "count_list (sharedBy it) k = 1"
    by (simp add: count_list_distinct)
  with True show ?thesis
    by (auto simp: item_share_def)
next
  case False
  then show ?thesis
    by (simp add: item_share_absent)
qed

lemma sum_list_indicator:
  "sum_list (map (\<lambda>k. if x = k then 1 else 0) ks) = real (count_list ks x)"
  by (induction ks) auto

lemma sum_count_list:
  assumes "distinct ks"
  shows "sum_list (map (\<lambda>k. real (count_list xs k)) ks) =
    real (length (filter (\<lambda>x. x \<in> set ks) xs))"
proof (induction xs)
  case Nil
  show ?case by simp
next
  case (Cons x xs)
  have "sum_list (map (\<lambda>k. real (count_list (x # xs) k)) ks) =
      sum_list (map (\<lambda>k. real (count_list xs k) + (if x = k then 1 else 0)) ks)"
    by (rule arg_cong [where f = sum_list]) (rule map_cong, simp_all)
  also have "\<dots> = sum_list (map (\<lambda>k. real (count_list xs k)) ks) + real (count_list ks x)"
    by (simp add: sum_list_addf sum_list_indicator)
  also have "real (count_list ks x) = (if x \<in> set ks then 1 else 0)"
    using assms by (simp add: count_list_distinct)
  finally show ?case
    using Cons.IH by simp
qed

lemma sum_item_share_people:
  assumes "distinct (map p_id people)"
  shows "sum_list (map (\<lambda>p. item_share it (p_id p)) people) = known_share people it"
proof (cases "sharedBy it = []")
  case True
  then show ?thesis
    by (simp add: item_share_def known_share_def)
next
  case False
  have "sum_list (map (\<lambda>p. item_share it (p_id p)) people) =
      sum_list (map (\<lambda>k. price it / real (length (sharedBy it)) * real (count_list (sharedBy it) k))
        (map p_id people))"
    using False by (simp add: item_share_def comp_def)
  also have "\<dots> = price it / real (length (sharedBy it)) *
      sum_list (map (\<lambda>k. real (count_list (sharedBy it) k)) (map p_id people))"
    by (simp only: sum_list_const_mult)
  also have "\<dots> = known_share people it"
    using False sum_count_list [OF assms, of "sharedBy it"] by (simp add: known_share_def)
  finally show ?thesis .
qed

lemma sum_bill_item_total_people:
  assumes "distinct (map p_id people)"
  shows "sum_list (map (\<lambda>p. bill_item_total bill (p_id p)) people) =
    sum_list (map (known_share people) (items bill))"
proof -
  have "sum_list (map (\<lambda>p. sum_list (map (\<lambda>i. item_share i (p_id p)) its)) people) =
      sum_list (map (known_share people) its)" for its
  proof (induction its)
    case Nil
    show ?case by simp
  next
    case (Cons i its)
    then show ?case
      by (simp add: sum_list_addf sum_item_share_people [OF assms])
  qed
  then show ?thesis
    by (simp add: bill_item_total_def)
qed

lemma known_share_all:
  assumes "set (sharedBy it) \<subseteq> p_id ` set people"
  shows "known_share people it = (if sharedBy it \<noteq> [] then price it else 0)"
proof -
  from assms have "filter (\<lambda>u. u \<in> p_id ` set people) (sharedBy it) = sharedBy it"
    by (auto intro: filter_True)
  then show ?thesis
    by (simp add: known_share_def)
qed

lemma sum_known_share_all:
  assumes "\<forall>it\<in>set its. set (sharedBy it) \<subseteq> p_id ` set people"
  shows "sum_list (map (known_share people) its) =
    sum_list (map price (filter (\<lambda>i. sharedBy i \<noteq> []) its))"
  using assms by (induction its) (simp_all add: known_share_all)

lemma sum_list_strict:
  fixes f g :: "'a \<Rightarrow> real"
  assumes "\<forall>x\<in>set xs. f x \<le> g x" and "\<exists>x\<in>set xs. f x < g x"
  shows "sum_list (map f xs) < sum_list (map g xs)"
  using assms
proof (induction xs)
  case Nil
  then show ?case by simp
next
  case (Cons x xs)
  have le: "sum_list (map f xs) \<le> sum_list (map g xs)"
    using Cons.prems(1) by (intro sum_list_mono) simp
  show ?case
  proof (cases "f x < g x")
    case True
    with le show ?thesis by simp
  next
    case False
    with Cons.prems have "f x \<le> g x" "\<exists>y\<in>set xs. f y < g y"
      by auto
    with Cons.IH Cons.prems(1) show ?thesis
      by (simp add: add_le_less_mono)
  qed
qed

lemma sum_list_zero:
  fixes f :: "'a \<Rightarrow> real"
  assumes "\<forall>x\<in>set xs. f x = 0"
  shows "sum_list (map f xs) = 0"
  using assms by (induction xs) simp_all

lemma no_share_zero:
  assumes "\<forall>b\<in>set bills. \<forall>it\<in>set (items b). k \<notin> set (sharedBy it)"
  shows "items_of bills k = 0 \<and> tax_of bills k = 0 \<and> service_of bills k = 0"
proof -
  have "bill_item_total b k = 0" if "b \<in> set bills" for b
    unfolding bill_item_total_def using assms that
    by (intro sum_list_zero) (simp add: item_share_absent)
  then show ?thesis
    by (simp add: items_of_def tax_of_def service_of_def sum_list_zero)
qed

lemmas allocator_defs = calculatePersonTotals_def init_personTotals_def zero_stats_def
  bill_step_def bill_items_def init_billPersonItemTotals_def item_step_def add_split_def
  baseForProportion_def person_step_def person_shares_def add_shares_def person_result_def
  paid_by_def bill_shares_def assignedSubtotal_def Let_def

lemma bill_shares_people:
  "map (bill_shares people bill) people = map Inr (map (\<lambda>p. id_shares bill (p_id p)) people)"
  by (simp add: bill_shares_closed)

lemma assignedSubtotal_if:
  "assignedSubtotal bill = sum_list (map (\<lambda>i. if sharedBy i \<noteq> [] then price i else 0) (items bill))"
  by (simp add: assignedSubtotal_def sum_list_map_filter')

lemma sum_item_totals_known:
  fixes people :: "person list"
  assumes "distinct (map p_id people)"
  shows "sum_list (map fst (map (\<lambda>p. id_shares bill (p_id p)) people)) =
    sum_list (map (known_share people) (items bill))"
  using sum_bill_item_total_people [OF assms, of bill]
  by (simp add: id_shares_def comp_def)

lemma sum_item_totals_assigned:
  fixes people :: "person list"
  assumes "distinct (map p_id people)"
    and "\<forall>it\<in>set (items bill). set (sharedBy it) \<subseteq> p_id ` set people"
  shows "sum_list (map fst (map (\<lambda>p. id_shares bill (p_id p)) people)) = assignedSubtotal bill"
  using sum_item_totals_known [OF assms(1), of bill] sum_known_share_all [OF assms(2)]
  by (simp add: assignedSubtotal_def)

lemma sum_list_proportion:
  fixes f :: "'a \<Rightarrow> real"
  shows "sum_list (map (\<lambda>x. c * (f x / b)) xs) = c / b * sum_list (map f xs)"
  by (induction xs) (simp_all add: algebra_simps)

lemma sum_tax_parts:
  fixes people :: "person list"
  shows "sum_list (map (\<lambda>sh. fst (snd sh)) (map (\<lambda>p. id_shares bill (p_id p)) people)) =
     tax bill / bill_base bill * sum_list (map fst (map (\<lambda>p. id_shares bill (p_id p)) people))"
  using sum_list_proportion [of "tax bill" "\<lambda>p. bill_item_total bill (p_id p)" "bill_base bill" people]
  by (simp only: id_shares_def map_map comp_def fst_conv snd_conv)

lemma sum_service_parts:
  fixes people :: "person list"
  shows "sum_list (map (\<lambda>sh. snd (snd sh)) (map (\<lambda>p. id_shares bill (p_id p)) people)) =
     serviceCharge bill / bill_base bill *
     sum_list (map fst (map (\<lambda>p. id_shares bill (p_id p)) people))"
  using sum_list_proportion
    [of "serviceCharge bill" "\<lambda>p. bill_item_total bill (p_id p)" "bill_base bill" people]
  by (simp only: id_shares_def map_map comp_def fst_conv snd_conv)

lemma bill_base_assigned: "0 < assignedSubtotal bill \<Longrightarrow> bill_base bill = assignedSubtotal bill"
  by (simp add: bill_base_def baseForProportion_def)

lemma no_priced_assignment:
  assumes "assignedSubtotal bill = 0"
    and "\<forall>it\<in>set (items bill). sharedBy it \<noteq> [] \<longrightarrow> 0 \<le> price it"
  shows "bill_item_total bill k = 0"
proof -
  have "sum_list (map (\<lambda>i. if sharedBy i \<noteq> [] then price i else 0) (items bill)) = 0"
    using assms(1) by (simp add: assignedSubtotal_if)
  moreover have "\<And>x. x \<in> set (map (\<lambda>i. if sharedBy i \<noteq> [] then price i else 0) (items bill))
      \<Longrightarrow> 0 \<le> x"
    using assms(2) by auto
  ultimately have "\<forall>x\<in>set (map (\<lambda>i. if sharedBy i \<noteq> [] then price i else 0) (items bill)). x = 0"
    by (simp only: sum_list_nonneg_eq_0_iff)
  then have "\<forall>i\<in>set (items bill). sharedBy i \<noteq> [] \<longrightarrow> price i = 0"
    by auto
  then have "\<forall>i\<in>set (items bill). item_share i k = 0"
    by (simp add: item_share_def)
  then show ?thesis
    unfolding bill_item_total_def by (rule sum_list_zero)
qed

lemma known_share_le:
  assumes "0 \<le> price it"
  shows "known_share people it \<le> (if sharedBy it \<noteq> [] then price it else 0)"
proof (cases "sharedBy it = []")
  case True
  then show ?thesis
    by (simp add: known_share_def)
next
  case False
  define n where "n = real (length (sharedBy it))"
  define k where "k = real (length (filter (\<lambda>u. u \<in> p_id ` set people) (sharedBy it)))"
  have n: "0 < n"
    using False by (simp add: n_def)
  have "k \<le> n"
    by (simp add: k_def n_def)
  then have "price it / n * k \<le> price it / n * n"
    using assms n by (intro mult_left_mono) simp_all
  also have "\<dots> = price it"
    using n by simp
  finally show ?thesis
    using False by (simp add: known_share_def n_def k_def)
qed

lemma known_share_less:
  assumes "0 < price it" and "u \<in> set (sharedBy it)" and "u \<notin> p_id ` set people"
  shows "known_share people it < (if sharedBy it \<noteq> [] then price it else 0)"
proof -
  from assms(2) have ne: "sharedBy it \<noteq> []"
    by auto
  define n where "n = real (length (sharedBy it))"
  define k where "k = real (length (filter (\<lambda>u. u \<in> p_id ` set people) (sharedBy it)))"
  have n: "0 < n"
    using ne by (simp add: n_def)
  have "length (filter (\<lambda>u. u \<in> p_id ` set people) (sharedBy it)) < length (sharedBy it)"
    using assms(2,3) by (intro length_filter_less) auto
  then have "k < n"
    by (simp add: k_def n_def)
  then have "price it / n * k < price it / n * n"
    using assms(1) n by (intro mult_strict_left_mono) simp_all
  also have "\<dots> = price it"
    using n by simp
  finally show ?thesis
    using ne by (simp add: known_share_def n_def k_def)
qed

lemma single_bill_run:
  assumes "distinct (map p_id people)"
  shows "\<exists>totals. calculatePersonTotals people [bill] payments = Inr totals \<and>
     map (\<lambda>t. (itemTotal t, taxShare t, serviceShare t)) totals =
       map (\<lambda>p. id_shares bill (p_id p)) people"
proof -
  have occ: "occurrences people (p_id p) = 1" if "p \<in> set people" for p
    using assms that by (simp add: occurrences_def count_list_distinct)
  have "(\<lambda>t. (itemTotal t, taxShare t, serviceShare t)) (totals_of people [bill] payments p) =
      id_shares bill (p_id p)" if "p \<in> set people" for p
    using occ [OF that]
    by (simp add: totals_of_def items_of_def tax_of_def service_of_def id_shares_def)
  then have "map (\<lambda>t. (itemTotal t, taxShare t, serviceShare t))
        (map (totals_of people [bill] payments) people) =
      map (\<lambda>p. id_shares bill (p_id p)) people"
    by (simp add: comp_def)
  then show ?thesis
    using calculatePersonTotals_closed [of people "[bill]" payments] by blast
qed

lemma single_bill_shares:
  assumes "distinct (map p_id people)"
  shows "\<exists>totals. calculatePersonTotals people [bill] payments = Inr totals \<and>
     map Inr (map (\<lambda>t. (itemTotal t, taxShare t, serviceShare t)) totals) =
       map (bill_shares people bill) people"
proof -
  from single_bill_run [OF assms, of bill payments] obtain totals
    where run: "calculatePersonTotals people [bill] payments = Inr totals"
    and eq: "map (\<lambda>t. (itemTotal t, taxShare t, serviceShare t)) totals =
       map (\<lambda>p. id_shares bill (p_id p)) people"
    by blast
  have "map Inr (map (\<lambda>t. (itemTotal t, taxShare t, serviceShare t)) totals) =
      map (bill_shares people bill) people"
    unfolding eq by (rule bill_shares_people [symmetric])
  with run show ?thesis
    by blast
qed

section \<open>The settlement loop and the reference sweep\<close>

lemma settle_loop_rule:
  assumes "P s" and "\<And>s. P s \<Longrightarrow> running s \<Longrightarrow> P (settle_step s)"
  shows "P (settle_loop s) \<and> \<not> running (settle_loop s)"
  using assms(1)
proof (induction s rule: settle_loop.induct)
  case (1 s)
  show ?case
  proof (cases "running s")
    case True
    then have "settle_loop s = settle_loop (settle_step s)"
      by (simp add: settle_loop.simps [of s])
    moreover have "P (settle_step s)"
      using "1.prems" True by (rule assms(2))
    ultimately show ?thesis
      using "1.IH" [OF True] by simp
  next
    case False
    then have "settle_loop s = s"
      by (simp add: settle_loop.simps [of s])
    with False "1.prems" show ?thesis
      by simp
  qed
qed

lemma view_current:
  assumes "i < length xs"
  shows "view xs i = (t_name (xs ! i), balance (xs ! i)) # view xs (Suc i)"
  using assms by (simp add: Cons_nth_drop_Suc [symmetric])

lemma view_update_current:
  assumes "i < length xs"
  shows "view (xs[i := x]) i = (t_name x, balance x) # view xs (Suc i)"
  using assms by (simp add: Cons_nth_drop_Suc [symmetric])

lemma view_update_next: "view (xs[i := x]) (Suc i) = view xs (Suc i)"
  by simp

lemma reference_of_step:
  assumes "running s"
  shows "reference_of (settle_step s) = reference_of s"
proof -
  obtain debtors creditors d c settlements
    where s: "s = (debtors, creditors, d, c, settlements)"
    by (cases s) auto
  from assms s have dc: "d < length debtors" "c < length creditors"
    by simp_all
  show ?thesis
    unfolding s
    using dc
    apply (simp only: settle_step.simps Let_def reference_of.simps)
    apply (simp only: view_current [OF dc(1)] view_current [OF dc(2)] sweep.simps Let_def
        nth_list_update_eq if_distrib [of "\<lambda>i. view _ i"] view_update_current view_update_next)
    apply (simp split: if_splits)
    done
qed

lemma reference_of_final:
  assumes "\<not> running s"
  shows "reference_of s = snd (snd (snd (snd s)))"
proof -
  obtain debtors creditors d c settlements
    where s: "s = (debtors, creditors, d, c, settlements)"
    by (cases s) auto
  from assms s have "view debtors d = [] \<or> view creditors c = []"
    by auto
  then show ?thesis
    unfolding s by (cases "view debtors d") auto
qed

lemma settle_loop_reference: "snd (snd (snd (snd (settle_loop s)))) = reference_of s"
proof -
  have "reference_of (settle_loop s) = reference_of s \<and> \<not> running (settle_loop s)"
    by (rule settle_loop_rule [where P = "\<lambda>s'. reference_of s' = reference_of s"])
      (simp_all add: reference_of_step)
  then have "reference_of s = reference_of (settle_loop s)" and "\<not> running (settle_loop s)"
    by simp_all
  then show ?thesis
    using reference_of_final [of "settle_loop s"] by simp
qed

lemma calculateSettlements_sweep:
  "calculateSettlements totals = settle_reference totals"
  by (simp add: calculateSettlements_def settle_start_def settle_reference_def settle_loop_reference comp_def)

lemma sent_simps [simp]:
  "sent n [] = 0"
  "sent n (s # ss) = (if s_from s = n then s_amount s else 0) + sent n ss"
  by (simp_all add: sent_def)

lemma received_simps [simp]:
  "received n [] = 0"
  "received n (s # ss) = (if s_to s = n then s_amount s else 0) + received n ss"
  by (simp_all add: received_def)

lemma owed_simps [simp]:
  "owed n [] = 0"
  "owed n (e # es) = (if fst e = n then snd e else 0) + owed n es"
  by (simp_all add: owed_def)

lemma open_total_simps [simp]:
  "open_total [] = 0"
  "open_total (e # es) = snd e + open_total es"
  by (simp_all add: open_total_def)

lemma moved_simps [simp]:
  "moved [] = 0"
  "moved (s # ss) = s_amount s + moved ss"
  by (simp_all add: moved_def)

lemma owed_bounds:
  assumes "\<forall>e\<in>set es. 0 \<le> snd e"
  shows "0 \<le> owed n es \<and> owed n es \<le> open_total es"
  using assms by (induction es) auto

lemma sweep_Cons:
  "sweep ((dn, dr) # ds) ((cn, cr) # cs) =
     \<lparr>s_from = dn, s_to = cn, s_amount = min dr cr\<rparr> #
     sweep (if dr - min dr cr < 1 / 100 then ds else (dn, dr - min dr cr) # ds)
           (if cr - min dr cr < 1 / 100 then cs else (cn, cr - min dr cr) # cs)"
  by (simp only: sweep.simps Let_def)

lemma sweep_names:
  "s \<in> set (sweep ds cs) \<Longrightarrow> s_from s \<in> fst ` set ds \<and> s_to s \<in> fst ` set cs"
proof (induction ds cs rule: sweep.induct)
  case (3 dn dr ds cn cr cs)
  define a where "a = min dr cr"
  define ds' where "ds' = (if dr - a < 1 / 100 then ds else (dn, dr - a) # ds)"
  define cs' where "cs' = (if cr - a < 1 / 100 then cs else (cn, cr - a) # cs)"
  have sw: "sweep ((dn, dr) # ds) ((cn, cr) # cs) =
      \<lparr>s_from = dn, s_to = cn, s_amount = a\<rparr> # sweep ds' cs'"
    unfolding a_def ds'_def cs'_def by (rule sweep_Cons)
  have sub: "fst ` set ds' \<subseteq> insert dn (fst ` set ds)" "fst ` set cs' \<subseteq> insert cn (fst ` set cs)"
    by (auto simp: ds'_def cs'_def)
  show ?case
  proof (cases "s \<in> set (sweep ds' cs')")
    case True
    then have "s_from s \<in> fst ` set ds' \<and> s_to s \<in> fst ` set cs'"
      unfolding ds'_def cs'_def a_def by (rule "3.IH" [OF refl])
    with sub show ?thesis
      by auto
  next
    case False
    with "3.prems" have "s = \<lparr>s_from = dn, s_to = cn, s_amount = a\<rparr>"
      unfolding sw by simp
    then show ?thesis
      by simp
  qed
qed simp_all

lemma sweep_amounts:
  assumes "\<forall>e\<in>set ds. 1 / 100 \<le> snd e" and "\<forall>e\<in>set cs. 1 / 100 \<le> snd e"
  shows "\<forall>s\<in>set (sweep ds cs). 1 / 100 \<le> s_amount s"
  using assms
proof (induction ds cs rule: sweep.induct)
  case (3 dn dr ds cn cr cs)
  define a where "a = min dr cr"
  define ds' where "ds' = (if dr - a < 1 / 100 then ds else (dn, dr - a) # ds)"
  define cs' where "cs' = (if cr - a < 1 / 100 then cs else (cn, cr - a) # cs)"
  have sw: "sweep ((dn, dr) # ds) ((cn, cr) # cs) =
      \<lparr>s_from = dn, s_to = cn, s_amount = a\<rparr> # sweep ds' cs'"
    unfolding a_def ds'_def cs'_def by (rule sweep_Cons)
  have "1 / 100 \<le> dr" "1 / 100 \<le> cr"
    using "3.prems" by simp_all
  then have a: "1 / 100 \<le> a"
    unfolding a_def by (rule min.boundedI)
  have "\<forall>e\<in>set ds'. 1 / 100 \<le> snd e"
    using "3.prems"(1) unfolding ds'_def by (auto simp: not_less)
  moreover have "\<forall>e\<in>set cs'. 1 / 100 \<le> snd e"
    using "3.prems"(2) unfolding cs'_def by (auto simp: not_less)
  ultimately have "\<forall>s\<in>set (sweep ds' cs'). 1 / 100 \<le> s_amount s"
    unfolding ds'_def cs'_def a_def by (rule "3.IH" [OF refl])
  with a show ?case
    unfolding sw by simp
qed simp_all

lemma sweep_debtor_side:
  assumes "\<forall>e\<in>set ds. 0 \<le> snd e" and "\<forall>e\<in>set cs. 0 \<le> snd e"
  shows "0 \<le> sent n (sweep ds cs) \<and> sent n (sweep ds cs) \<le> owed n ds \<and>
    owed n ds - sent n (sweep ds cs) \<le> open_total ds - moved (sweep ds cs)"
  using assms
proof (induction ds cs rule: sweep.induct)
  case (1 cs)
  then show ?case by simp
next
  case (2 dh ds)
  then show ?case
    using owed_bounds [of "dh # ds" n] by simp
next
  case (3 dn dr ds cn cr cs)
  define a where "a = min dr cr"
  define ds' where "ds' = (if dr - a < 1 / 100 then ds else (dn, dr - a) # ds)"
  define cs' where "cs' = (if cr - a < 1 / 100 then cs else (cn, cr - a) # cs)"
  define S where "S = sweep ds' cs'"
  have sw: "sweep ((dn, dr) # ds) ((cn, cr) # cs) =
      \<lparr>s_from = dn, s_to = cn, s_amount = a\<rparr> # S"
    unfolding a_def ds'_def cs'_def S_def by (rule sweep_Cons)
  have "0 \<le> dr" "0 \<le> cr"
    using "3.prems" by simp_all
  then have a: "0 \<le> a" "a \<le> dr" "a \<le> cr"
    unfolding a_def by simp_all
  have "\<forall>e\<in>set ds'. 0 \<le> snd e"
    using "3.prems"(1) a unfolding ds'_def by auto
  moreover have "\<forall>e\<in>set cs'. 0 \<le> snd e"
    using "3.prems"(2) a unfolding cs'_def by auto
  ultimately have ih: "0 \<le> sent n S \<and> sent n S \<le> owed n ds' \<and>
      owed n ds' - sent n S \<le> open_total ds' - moved S"
    unfolding S_def ds'_def cs'_def a_def by (rule "3.IH" [OF refl])
  have sent: "sent n (\<lparr>s_from = dn, s_to = cn, s_amount = a\<rparr> # S) =
      (if dn = n then a else 0) + sent n S"
    by simp
  have moved: "moved (\<lparr>s_from = dn, s_to = cn, s_amount = a\<rparr> # S) = a + moved S"
    by simp
  have owed: "owed n ((dn, dr) # ds) = (if dn = n then dr else 0) + owed n ds"
    and tot: "open_total ((dn, dr) # ds) = dr + open_total ds"
    by simp_all
  show ?case
  proof (cases "dr - a < 1 / 100")
    case True
    then have "ds' = ds"
      by (simp add: ds'_def)
    with ih a show ?thesis
      unfolding sw sent moved owed tot by (cases "dn = n") auto
  next
    case False
    then have "owed n ds' = (if dn = n then dr - a else 0) + owed n ds"
      and "open_total ds' = dr - a + open_total ds"
      by (simp_all add: ds'_def)
    with ih a show ?thesis
      unfolding sw sent moved owed tot by (cases "dn = n") auto
  qed
qed

lemma sweep_creditor_side:
  assumes "\<forall>e\<in>set ds. 0 \<le> snd e" and "\<forall>e\<in>set cs. 0 \<le> snd e"
  shows "0 \<le> received n (sweep ds cs) \<and> received n (sweep ds cs) \<le> owed n cs \<and>
    owed n cs - received n (sweep ds cs) \<le> open_total cs - moved (sweep ds cs)"
  using assms
proof (induction ds cs rule: sweep.induct)
  case (1 cs)
  then show ?case
    using owed_bounds [of cs n] by simp
next
  case (2 dh ds)
  then show ?case by simp
next
  case (3 dn dr ds cn cr cs)
  define a where "a = min dr cr"
  define ds' where "ds' = (if dr - a < 1 / 100 then ds else (dn, dr - a) # ds)"
  define cs' where "cs' = (if cr - a < 1 / 100 then cs else (cn, cr - a) # cs)"
  define S where "S = sweep ds' cs'"
  have sw: "sweep ((dn, dr) # ds) ((cn, cr) # cs) =
      \<lparr>s_from = dn, s_to = cn, s_amount = a\<rparr> # S"
    unfolding a_def ds'_def cs'_def S_def by (rule sweep_Cons)
  have "0 \<le> dr" "0 \<le> cr"
    using "3.prems" by simp_all
  then have a: "0 \<le> a" "a \<le> dr" "a \<le> cr"
    unfolding a_def by simp_all
  have "\<forall>e\<in>set ds'. 0 \<le> snd e"
    using "3.prems"(1) a unfolding ds'_def by auto
  moreover have "\<forall>e\<in>set cs'. 0 \<le> snd e"
    using "3.prems"(2) a unfolding cs'_def by auto
  ultimately have ih: "0 \<le> received n S \<and> received n S \<le> owed n cs' \<and>
      owed n cs' - received n S \<le> open_total cs' - moved S"
    unfolding S_def ds'_def cs'_def a_def by (rule "3.IH" [OF refl])
  have recv: "received n (\<lparr>s_from = dn, s_to = cn, s_amount = a\<rparr> # S) =
      (if cn = n then a else 0) + received n S"
    by simp
  have moved: "moved (\<lparr>s_from = dn, s_to = cn, s_amount = a\<rparr> # S) = a + moved S"
    by simp
  have owed: "owed n ((cn, cr) # cs) = (if cn = n then cr else 0) + owed n cs"
    and tot: "open_total ((cn, cr) # cs) = cr + open_total cs"
    by simp_all
  show ?case
  proof (cases "cr - a < 1 / 100")
    case True
    then have "cs' = cs"
      by (simp add: cs'_def)
    with ih a show ?thesis
      unfolding sw recv moved owed tot by (cases "cn = n") auto
  next
    case False
    then have "owed n cs' = (if cn = n then cr - a else 0) + owed n cs"
      and "open_total cs' = cr - a + open_total cs"
      by (simp_all add: cs'_def)
    with ih a show ?thesis
      unfolding sw recv moved owed tot by (cases "cn = n") auto
  qed
qed

lemma sweep_slack_min:
  "open_total ds - moved (sweep ds cs) \<le> real (min (length ds) (length cs)) / 100 \<or>
   open_total cs - moved (sweep ds cs) \<le> real (min (length ds) (length cs)) / 100"
proof (induction ds cs rule: sweep.induct)
  case (3 dn dr ds cn cr cs)
  define a where "a = min dr cr"
  define ds' where "ds' = (if dr - a < 1 / 100 then ds else (dn, dr - a) # ds)"
  define cs' where "cs' = (if cr - a < 1 / 100 then cs else (cn, cr - a) # cs)"
  define S where "S = sweep ds' cs'"
  define RD where "RD = open_total ds' - moved S"
  define RC where "RC = open_total cs' - moved S"
  have sw: "sweep ((dn, dr) # ds) ((cn, cr) # cs) =
      \<lparr>s_from = dn, s_to = cn, s_amount = a\<rparr> # S"
    unfolding a_def ds'_def cs'_def S_def by (rule sweep_Cons)
  have ih: "RD \<le> real (min (length ds') (length cs')) / 100 \<or>
      RC \<le> real (min (length ds') (length cs')) / 100"
    unfolding RD_def RC_def S_def ds'_def cs'_def a_def by (rule "3.IH" [OF refl])
  have zero: "dr - a = 0 \<or> cr - a = 0"
    by (auto simp: a_def min_def)
  have goal: "dr + open_total ds - (a + moved S) \<le> real (min (Suc (length ds)) (Suc (length cs))) / 100 \<or>
      cr + open_total cs - (a + moved S) \<le> real (min (Suc (length ds)) (Suc (length cs))) / 100"
  proof (cases "dr - a < 1 / 100")
    case dd: True
    then have ds': "ds' = ds"
      by (simp add: ds'_def)
    show ?thesis
    proof (cases "cr - a < 1 / 100")
      case True
      then have cs': "cs' = cs"
        by (simp add: cs'_def)
      have m: "real (min (Suc (length ds)) (Suc (length cs))) / 100 =
          real (min (length ds) (length cs)) / 100 + 1 / 100"
        by (simp add: min_def field_simps)
      from zero dd True have "dr - a \<le> 1 / 100" "cr - a \<le> 1 / 100"
        by linarith+
      with ih show ?thesis
        unfolding m RD_def RC_def ds' cs' by linarith
    next
      case False
      then have cs': "cs' = (cn, cr - a) # cs"
        by (simp add: cs'_def)
      from False zero have z: "dr - a = 0"
        by auto
      have "real (min (length ds) (Suc (length cs))) / 100 \<le>
          real (min (Suc (length ds)) (Suc (length cs))) / 100"
        by (simp add: min_def field_simps)
      with ih z show ?thesis
        unfolding RD_def RC_def ds' cs' by (simp add: field_simps) linarith
    qed
  next
    case dd: False
    then have ds': "ds' = (dn, dr - a) # ds"
      by (simp add: ds'_def)
    from dd zero have z: "cr - a = 0"
      by auto
    then have cs': "cs' = cs"
      by (simp add: cs'_def)
    have "real (min (Suc (length ds)) (length cs)) / 100 \<le>
        real (min (Suc (length ds)) (Suc (length cs))) / 100"
      by (simp add: min_def field_simps)
    with ih z show ?thesis
      unfolding RD_def RC_def ds' cs' by (simp add: field_simps) linarith
  qed
  then show ?case
    unfolding sw by simp
qed simp_all

lemma owed_filter:
  "owed n (map (\<lambda>u. (t_name u, g u)) (filter P xs)) =
     sum_list (map g (filter P (filter (\<lambda>u. t_name u = n) xs)))"
  by (induction xs) simp_all

lemma owed_single:
  assumes "filter (\<lambda>u. t_name u = t_name t) totals = [t]"
  shows "owed (t_name t) (map (\<lambda>u. (t_name u, g u)) (filter P totals)) = (if P t then g t else 0)"
  by (simp add: owed_filter assms)

lemma debtor_entries_nonneg:
  "\<forall>e\<in>set (map (\<lambda>t. (t_name t, \<bar>balance t\<bar>)) (filter (\<lambda>t. balance t < - (1 / 100)) totals)).
     0 \<le> snd e"
  by auto

lemma creditor_entries_nonneg:
  "\<forall>e\<in>set (map (\<lambda>t. (t_name t, balance t)) (filter (\<lambda>t. balance t > 1 / 100) totals)).
     0 \<le> snd e"
  by auto

lemma debtor_entries_fresh:
  "\<forall>e\<in>set (map (\<lambda>t. (t_name t, \<bar>balance t\<bar>)) (filter (\<lambda>t. balance t < - (1 / 100)) totals)).
     1 / 100 \<le> snd e"
  by auto

lemma creditor_entries_fresh:
  "\<forall>e\<in>set (map (\<lambda>t. (t_name t, balance t)) (filter (\<lambda>t. balance t > 1 / 100) totals)).
     1 / 100 \<le> snd e"
  by auto

lemma open_total_map: "open_total (map (\<lambda>t. (f t, g t)) xs) = sum_list (map g xs)"
  by (simp add: open_total_def comp_def)

lemma settle_step_eq:
  "settle_step (debtors, creditors, d, c, settlements) =
     (debtors[d := (debtors ! d)\<lparr>balance := balance (debtors ! d)
         - min (balance (debtors ! d)) (balance (creditors ! c))\<rparr>],
      creditors[c := (creditors ! c)\<lparr>balance := balance (creditors ! c)
         - min (balance (debtors ! d)) (balance (creditors ! c))\<rparr>],
      (if balance ((debtors[d := (debtors ! d)\<lparr>balance := balance (debtors ! d)
         - min (balance (debtors ! d)) (balance (creditors ! c))\<rparr>]) ! d) < 1 / 100
       then d + 1 else d),
      (if balance ((creditors[c := (creditors ! c)\<lparr>balance := balance (creditors ! c)
         - min (balance (debtors ! d)) (balance (creditors ! c))\<rparr>]) ! c) < 1 / 100
       then c + 1 else c),
      settlements @ [\<lparr>s_from = t_name (debtors ! d), s_to = t_name (creditors ! c),
         s_amount = min (balance (debtors ! d)) (balance (creditors ! c))\<rparr>])"
  by (simp only: settle_step.simps Let_def)

lemma settle_step_shape:
  assumes "d < length debtors" and "c < length creditors"
  obtains a x y where
    "a = min (balance (debtors ! d)) (balance (creditors ! c))"
    "balance x = balance (debtors ! d) - a" "t_name x = t_name (debtors ! d)"
    "balance y = balance (creditors ! c) - a" "t_name y = t_name (creditors ! c)"
    "settle_step (debtors, creditors, d, c, settlements) =
       (debtors[d := x], creditors[c := y],
        (if balance x < 1 / 100 then Suc d else d), (if balance y < 1 / 100 then Suc c else c),
        settlements @ [\<lparr>s_from = t_name (debtors ! d), s_to = t_name (creditors ! c),
          s_amount = a\<rparr>])"
proof -
  define a where "a = min (balance (debtors ! d)) (balance (creditors ! c))"
  define x where "x = (debtors ! d)\<lparr>balance := balance (debtors ! d) - a\<rparr>"
  define y where "y = (creditors ! c)\<lparr>balance := balance (creditors ! c) - a\<rparr>"
  have "settle_step (debtors, creditors, d, c, settlements) =
       (debtors[d := x], creditors[c := y],
        (if balance x < 1 / 100 then Suc d else d), (if balance y < 1 / 100 then Suc c else c),
        settlements @ [\<lparr>s_from = t_name (debtors ! d), s_to = t_name (creditors ! c),
          s_amount = a\<rparr>])"
    unfolding settle_step_eq a_def [symmetric] x_def [symmetric] y_def [symmetric]
    using assms by (simp only: nth_list_update_eq Suc_eq_plus1)
  moreover have "balance x = balance (debtors ! d) - a" "t_name x = t_name (debtors ! d)"
    "balance y = balance (creditors ! c) - a" "t_name y = t_name (creditors ! c)"
    by (simp_all add: x_def y_def)
  ultimately show ?thesis
    using that a_def by blast
qed

lemma sum_list_map_update:
  fixes f :: "'a \<Rightarrow> real"
  assumes "i < length xs"
  shows "sum_list (map f (xs[i := x])) = sum_list (map f xs) - f (xs ! i) + f x"
  using assms
proof (induction xs arbitrary: i)
  case Nil
  then show ?case by simp
next
  case (Cons y ys)
  then show ?case
    by (cases i) simp_all
qed

lemma settle_step_advanced:
  assumes "running s"
  shows "advanced s (settle_step s)"
proof -
  obtain debtors creditors d c settlements
    where s: "s = (debtors, creditors, d, c, settlements)"
    by (cases s) auto
  from assms s have dc: "d < length debtors" "c < length creditors"
    by simp_all
  from dc obtain a x y where a: "a = min (balance (debtors ! d)) (balance (creditors ! c))"
    and x: "balance x = balance (debtors ! d) - a"
    and y: "balance y = balance (creditors ! c) - a"
    and step: "settle_step (debtors, creditors, d, c, settlements) =
       (debtors[d := x], creditors[c := y],
        (if balance x < 1 / 100 then Suc d else d), (if balance y < 1 / 100 then Suc c else c),
        settlements @ [\<lparr>s_from = t_name (debtors ! d), s_to = t_name (creditors ! c),
          s_amount = a\<rparr>])"
    by (rule settle_step_shape)
  have "balance x = 0 \<or> balance y = 0"
    using a x y by (auto simp: min_def)
  then have "balance x < 1 / 100 \<or> balance y < 1 / 100"
    by auto
  then show ?thesis
    unfolding s step by auto
qed

lemma settle_step_room:
  assumes "running s"
  shows "cursor_room (settle_step s) < cursor_room s"
proof -
  obtain debtors creditors d c settlements
    where s: "s = (debtors, creditors, d, c, settlements)"
    by (cases s) auto
  from assms s have dc: "d < length debtors" "c < length creditors"
    by simp_all
  from dc obtain a x y where a: "a = min (balance (debtors ! d)) (balance (creditors ! c))"
    and x: "balance x = balance (debtors ! d) - a"
    and y: "balance y = balance (creditors ! c) - a"
    and step: "settle_step (debtors, creditors, d, c, settlements) =
       (debtors[d := x], creditors[c := y],
        (if balance x < 1 / 100 then Suc d else d), (if balance y < 1 / 100 then Suc c else c),
        settlements @ [\<lparr>s_from = t_name (debtors ! d), s_to = t_name (creditors ! c),
          s_amount = a\<rparr>])"
    by (rule settle_step_shape)
  have "balance x = 0 \<or> balance y = 0"
    using a x y by (auto simp: min_def)
  then have "balance x < 1 / 100 \<or> balance y < 1 / 100"
    by auto
  then show ?thesis
    unfolding s step using dc by auto
qed

lemma settle_step_gap:
  assumes "running s"
  shows "open_gap (settle_step s) = open_gap s"
proof -
  obtain debtors creditors d c settlements
    where s: "s = (debtors, creditors, d, c, settlements)"
    by (cases s) auto
  from assms s have dc: "d < length debtors" "c < length creditors"
    by simp_all
  from dc obtain a x y where a: "a = min (balance (debtors ! d)) (balance (creditors ! c))"
    and x: "balance x = balance (debtors ! d) - a"
    and y: "balance y = balance (creditors ! c) - a"
    and step: "settle_step (debtors, creditors, d, c, settlements) =
       (debtors[d := x], creditors[c := y],
        (if balance x < 1 / 100 then Suc d else d), (if balance y < 1 / 100 then Suc c else c),
        settlements @ [\<lparr>s_from = t_name (debtors ! d), s_to = t_name (creditors ! c),
          s_amount = a\<rparr>])"
    by (rule settle_step_shape)
  show ?thesis
    unfolding s step using dc x y
    by (simp add: sum_list_map_update)
qed

lemma settle_step_passed:
  assumes "running s" and "passed_settled s"
  shows "passed_settled (settle_step s)"
proof -
  obtain debtors creditors d c settlements
    where s: "s = (debtors, creditors, d, c, settlements)"
    by (cases s) auto
  from assms s have dc: "d < length debtors" "c < length creditors"
    by simp_all
  from dc obtain a x y where a: "a = min (balance (debtors ! d)) (balance (creditors ! c))"
    and x: "balance x = balance (debtors ! d) - a"
    and y: "balance y = balance (creditors ! c) - a"
    and step: "settle_step (debtors, creditors, d, c, settlements) =
       (debtors[d := x], creditors[c := y],
        (if balance x < 1 / 100 then Suc d else d), (if balance y < 1 / 100 then Suc c else c),
        settlements @ [\<lparr>s_from = t_name (debtors ! d), s_to = t_name (creditors ! c),
          s_amount = a\<rparr>])"
    by (rule settle_step_shape)
  from assms(2) have old: "\<forall>i<d. balance (debtors ! i) < 1 / 100"
    "\<forall>j<c. balance (creditors ! j) < 1 / 100"
    unfolding s by simp_all
  have "\<forall>i<(if balance x < 1 / 100 then Suc d else d). balance (debtors[d := x] ! i) < 1 / 100"
    using old(1) dc(1) by (auto simp: nth_list_update less_Suc_eq)
  moreover have "\<forall>j<(if balance y < 1 / 100 then Suc c else c). balance (creditors[c := y] ! j) < 1 / 100"
    using old(2) dc(2) by (auto simp: nth_list_update less_Suc_eq)
  ultimately show ?thesis
    unfolding s step using dc by (simp del: One_nat_def)
qed

lemma settle_step_fresh:
  assumes "running s" and "ahead_fresh s"
  shows "ahead_fresh (settle_step s)"
proof -
  obtain debtors creditors d c settlements
    where s: "s = (debtors, creditors, d, c, settlements)"
    by (cases s) auto
  from assms s have dc: "d < length debtors" "c < length creditors"
    by simp_all
  from dc obtain a x y where a: "a = min (balance (debtors ! d)) (balance (creditors ! c))"
    and x: "balance x = balance (debtors ! d) - a"
    and y: "balance y = balance (creditors ! c) - a"
    and step: "settle_step (debtors, creditors, d, c, settlements) =
       (debtors[d := x], creditors[c := y],
        (if balance x < 1 / 100 then Suc d else d), (if balance y < 1 / 100 then Suc c else c),
        settlements @ [\<lparr>s_from = t_name (debtors ! d), s_to = t_name (creditors ! c),
          s_amount = a\<rparr>])"
    by (rule settle_step_shape)
  from assms(2) have old: "\<forall>i. d \<le> i \<and> i < length debtors \<longrightarrow> 1 / 100 \<le> balance (debtors ! i)"
    "\<forall>j. c \<le> j \<and> j < length creditors \<longrightarrow> 1 / 100 \<le> balance (creditors ! j)"
    "\<forall>s\<in>set settlements. 1 / 100 \<le> s_amount s"
    unfolding s by simp_all
  from old dc have "1 / 100 \<le> balance (debtors ! d)" "1 / 100 \<le> balance (creditors ! c)"
    by simp_all
  then have amt: "1 / 100 \<le> a"
    unfolding a by (rule min.boundedI)
  have "\<forall>i. (if balance x < 1 / 100 then Suc d else d) \<le> i \<and> i < length debtors
      \<longrightarrow> 1 / 100 \<le> balance (debtors[d := x] ! i)"
    using old(1) by (auto simp: nth_list_update not_less)
  moreover have "\<forall>j. (if balance y < 1 / 100 then Suc c else c) \<le> j \<and> j < length creditors
      \<longrightarrow> 1 / 100 \<le> balance (creditors[c := y] ! j)"
    using old(2) by (auto simp: nth_list_update not_less)
  moreover have "\<forall>s\<in>set (settlements @ [\<lparr>s_from = t_name (debtors ! d),
      s_to = t_name (creditors ! c), s_amount = a\<rparr>]). 1 / 100 \<le> s_amount s"
    using old(3) amt by simp
  ultimately show ?thesis
    unfolding s step ahead_fresh.simps length_list_update by blast
qed

lemma settle_loop_iterations:
  "\<exists>n\<le>cursor_room s. settle_loop s = (settle_step ^^ n) s \<and>
     (\<forall>k<n. running ((settle_step ^^ k) s))"
proof (induction s rule: settle_loop.induct)
  case (1 s)
  show ?case
  proof (cases "running s")
    case True
    from "1.IH" [OF True] obtain n where n: "n \<le> cursor_room (settle_step s)"
      "settle_loop (settle_step s) = (settle_step ^^ n) (settle_step s)"
      "\<forall>k<n. running ((settle_step ^^ k) (settle_step s))"
      by blast
    from True have room: "cursor_room (settle_step s) < cursor_room s"
      by (rule settle_step_room)
    have "settle_loop s = (settle_step ^^ Suc n) s"
      using True n(2) by (simp add: settle_loop.simps [of s] funpow_swap1)
    moreover have "\<forall>k<Suc n. running ((settle_step ^^ k) s)"
    proof (intro allI impI)
      fix k
      assume "k < Suc n"
      then show "running ((settle_step ^^ k) s)"
        using True n(3) by (cases k) (simp_all add: funpow_swap1)
    qed
    moreover have "Suc n \<le> cursor_room s"
      using n(1) room by simp
    ultimately show ?thesis
      by blast
  next
    case False
    then have "settle_loop s = (settle_step ^^ 0) s"
      by (simp add: settle_loop.simps [of s])
    then show ?thesis
      by blast
  qed
qed

lemma ahead_fresh_start: "ahead_fresh (settle_start totals)"
proof -
  define D where "D = map (\<lambda>t. t\<lparr>balance := \<bar>balance t\<bar>\<rparr>)
      (filter (\<lambda>t. balance t < - (1 / 100)) totals)"
  define C where "C = map (\<lambda>t. t) (filter (\<lambda>t. balance t > 1 / 100) totals)"
  have "\<forall>x\<in>set D. 1 / 100 \<le> balance x" and "\<forall>x\<in>set C. 1 / 100 \<le> balance x"
    by (auto simp: D_def C_def)
  then have "\<forall>i. 0 \<le> i \<and> i < length D \<longrightarrow> 1 / 100 \<le> balance (D ! i)"
    and "\<forall>j. 0 \<le> j \<and> j < length C \<longrightarrow> 1 / 100 \<le> balance (C ! j)"
    using nth_mem by blast+
  then have "ahead_fresh (D, C, 0, 0, [])"
    by simp
  then show ?thesis
    by (simp only: settle_start_def Let_def D_def C_def)
qed

lemma sent_append:
  "sent n (ss @ [s]) = sent n ss + (if s_from s = n then s_amount s else 0)"
  by (simp add: sent_def)

lemma received_append:
  "received n (ss @ [s]) = received n ss + (if s_to s = n then s_amount s else 0)"
  by (simp add: received_def)

lemma moved_append: "moved (ss @ [s]) = moved ss + s_amount s"
  by (simp add: moved_def)

lemma paid_off_same: "paid_off n xs xs = 0"
proof -
  have "map (\<lambda>(t, t'). if t_name t = n then balance t - balance t' else 0) (zip xs xs) =
      map (\<lambda>t. 0 :: real) xs"
    by (induction xs) simp_all
  then show ?thesis
    by (simp add: paid_off_def)
qed

lemma paid_off_update:
  assumes "i < length cur" and "length cur = length orig"
  shows "paid_off n orig (cur[i := x]) =
    paid_off n orig cur +
      (if t_name (orig ! i) = n then balance (cur ! i) - balance x else 0)"
proof -
  have "zip orig (cur[i := x]) = (zip orig cur)[i := (orig ! i, x)]"
    by (simp add: update_zip)
  moreover have "i < length (zip orig cur)" and "zip orig cur ! i = (orig ! i, cur ! i)"
    using assms by simp_all
  ultimately show ?thesis
    by (simp add: paid_off_def sum_list_map_update)
qed

lemma lowered_update:
  assumes "lowered orig cur" and "i < length cur" and "t_name x = t_name (cur ! i)"
    and "0 \<le> balance x" and "balance x \<le> balance (cur ! i)"
  shows "lowered orig (cur[i := x])"
  using assms unfolding lowered_def
  by (auto simp: nth_list_update)

lemma lowered_same:
  assumes "\<forall>x\<in>set xs. 0 \<le> balance x"
  shows "lowered xs xs"
  using assms by (simp add: lowered_def)

lemma settle_step_settled:
  assumes "running s" and "settled_from D C s"
  shows "settled_from D C (settle_step s)"
proof -
  obtain debtors creditors d c settlements
    where s: "s = (debtors, creditors, d, c, settlements)"
    by (cases s) auto
  from assms s have dc: "d < length debtors" "c < length creditors"
    by simp_all
  from dc obtain a x y where a: "a = min (balance (debtors ! d)) (balance (creditors ! c))"
    and x: "balance x = balance (debtors ! d) - a" "t_name x = t_name (debtors ! d)"
    and y: "balance y = balance (creditors ! c) - a" "t_name y = t_name (creditors ! c)"
    and step: "settle_step (debtors, creditors, d, c, settlements) =
       (debtors[d := x], creditors[c := y],
        (if balance x < 1 / 100 then Suc d else d), (if balance y < 1 / 100 then Suc c else c),
        settlements @ [\<lparr>s_from = t_name (debtors ! d), s_to = t_name (creditors ! c),
          s_amount = a\<rparr>])"
    by (rule settle_step_shape)
  from assms(2) have inv: "lowered D debtors" "lowered C creditors"
    "\<forall>n. sent n settlements = paid_off n D debtors"
    "\<forall>n. received n settlements = paid_off n C creditors"
    "sum_list (map balance debtors) + moved settlements = sum_list (map balance D)"
    "sum_list (map balance creditors) + moved settlements = sum_list (map balance C)"
    unfolding s by simp_all
  from inv(1,2) dc have len: "length debtors = length D" "length creditors = length C"
    and nm: "t_name (debtors ! d) = t_name (D ! d)" "t_name (creditors ! c) = t_name (C ! c)"
    and nn: "0 \<le> balance (debtors ! d)" "0 \<le> balance (creditors ! c)"
    by (simp_all add: lowered_def)
  from nn have a0: "0 \<le> a" "a \<le> balance (debtors ! d)" "a \<le> balance (creditors ! c)"
    unfolding a by simp_all
  have l1: "lowered D (debtors[d := x])"
    using inv(1) dc(1) x a0 by (intro lowered_update) simp_all
  have l2: "lowered C (creditors[c := y])"
    using inv(2) dc(2) y a0 by (intro lowered_update) simp_all
  have p1: "paid_off n D (debtors[d := x]) =
      paid_off n D debtors + (if t_name (D ! d) = n then a else 0)" for n
    using paid_off_update [OF dc(1) len(1), of n x] x(1) by simp
  have p2: "paid_off n C (creditors[c := y]) =
      paid_off n C creditors + (if t_name (C ! c) = n then a else 0)" for n
    using paid_off_update [OF dc(2) len(2), of n y] y(1) by simp
  have s1: "\<forall>n. sent n (settlements @ [\<lparr>s_from = t_name (debtors ! d),
      s_to = t_name (creditors ! c), s_amount = a\<rparr>]) = paid_off n D (debtors[d := x])"
    using inv(3) by (simp add: sent_append p1 nm)
  have s2: "\<forall>n. received n (settlements @ [\<lparr>s_from = t_name (debtors ! d),
      s_to = t_name (creditors ! c), s_amount = a\<rparr>]) = paid_off n C (creditors[c := y])"
    using inv(4) by (simp add: received_append p2 nm)
  have t1: "sum_list (map balance (debtors[d := x])) + moved (settlements @ [\<lparr>s_from = t_name (debtors ! d),
      s_to = t_name (creditors ! c), s_amount = a\<rparr>]) = sum_list (map balance D)"
    using inv(5) dc(1) x(1) by (simp add: sum_list_map_update moved_append)
  have t2: "sum_list (map balance (creditors[c := y])) + moved (settlements @ [\<lparr>s_from = t_name (debtors ! d),
      s_to = t_name (creditors ! c), s_amount = a\<rparr>]) = sum_list (map balance C)"
    using inv(6) dc(2) y(1) by (simp add: sum_list_map_update moved_append)
  from l1 l2 s1 s2 t1 t2 show ?thesis
    unfolding s step settled_from.simps by blast
qed

lemma settled_from_start:
  "settled_from (debtors_of (settle_start totals)) (creditors_of (settle_start totals))
     (settle_start totals)"
proof -
  define D where "D = map (\<lambda>t. t\<lparr>balance := \<bar>balance t\<bar>\<rparr>)
      (filter (\<lambda>t. balance t < - (1 / 100)) totals)"
  define C where "C = map (\<lambda>t. t) (filter (\<lambda>t. balance t > 1 / 100) totals)"
  have s0: "settle_start totals = (D, C, 0, 0, [])"
    by (simp only: settle_start_def Let_def D_def C_def)
  have "\<forall>x\<in>set D. 0 \<le> balance x" and "\<forall>x\<in>set C. 0 \<le> balance x"
    by (auto simp: D_def C_def)
  then have "lowered D D" "lowered C C"
    by (simp_all add: lowered_same)
  then show ?thesis
    unfolding s0 by (simp add: paid_off_same)
qed

lemma settled_from_final:
  "settled_from (debtors_of (settle_start totals)) (creditors_of (settle_start totals))
     (settle_loop (settle_start totals))"
  using settle_loop_rule [where P = "settled_from (debtors_of (settle_start totals))
      (creditors_of (settle_start totals))" and s = "settle_start totals"]
  by (simp add: settled_from_start settle_step_settled)

lemma member_le_sum:
  fixes f :: "'a \<Rightarrow> real"
  assumes "\<forall>x\<in>set xs. 0 \<le> f x" and "x \<in> set xs"
  shows "f x \<le> sum_list (map f xs)"
  using assms
proof (induction xs)
  case Nil
  then show ?case by simp
next
  case (Cons y ys)
  have "0 \<le> sum_list (map f ys)"
    using Cons.prems(1) by (intro sum_list_nonneg) auto
  with Cons show ?case
    by (cases "x = y") auto
qed

lemma lowered_nonneg: "lowered orig cur \<Longrightarrow> \<forall>x\<in>set cur. 0 \<le> balance x"
  by (auto simp: lowered_def in_set_conv_nth)

lemma unique_name_bounds:
  assumes "filter (\<lambda>u. t_name u = t_name t) totals = [t]"
  shows "sent (t_name t) (calculateSettlements totals)
      \<le> (if balance t < - (1 / 100) then \<bar>balance t\<bar> else 0) \<and>
    received (t_name t) (calculateSettlements totals)
      \<le> (if balance t > 1 / 100 then balance t else 0) \<and>
    (sum_list (map (\<lambda>t. \<bar>balance t\<bar>) (filter (\<lambda>t. balance t < - (1 / 100)) totals)) =
       sum_list (map balance (filter (\<lambda>t. balance t > 1 / 100) totals)) \<longrightarrow>
     \<bar>balance t + sent (t_name t) (calculateSettlements totals)
        - received (t_name t) (calculateSettlements totals)\<bar>
      \<le> real (max 1 (min (length (filter (\<lambda>t. balance t < - (1 / 100)) totals))
                         (length (filter (\<lambda>t. balance t > 1 / 100) totals)))) / 100)"
proof -
  define D where "D = map (\<lambda>t. (t_name t, \<bar>balance t\<bar>)) (filter (\<lambda>t. balance t < - (1 / 100)) totals)"
  define C where "C = map (\<lambda>t. (t_name t, balance t)) (filter (\<lambda>t. balance t > 1 / 100) totals)"
  define S where "S = calculateSettlements totals"
  define n where "n = t_name t"
  have S: "S = sweep D C"
    by (simp add: S_def D_def C_def calculateSettlements_sweep settle_reference_def)
  have D0: "\<forall>e\<in>set D. 0 \<le> snd e" and C0: "\<forall>e\<in>set C. 0 \<le> snd e"
    unfolding D_def C_def by (rule debtor_entries_nonneg, rule creditor_entries_nonneg)
  have oD: "owed n D = (if balance t < - (1 / 100) then \<bar>balance t\<bar> else 0)"
    unfolding D_def n_def using assms by (rule owed_single)
  have oC: "owed n C = (if balance t > 1 / 100 then balance t else 0)"
    unfolding C_def n_def using assms by (rule owed_single)
  have dside: "0 \<le> sent n S" "sent n S \<le> owed n D"
    "owed n D - sent n S \<le> open_total D - moved S"
    using sweep_debtor_side [OF D0 C0, of n] unfolding S by simp_all
  have cside: "0 \<le> received n S" "received n S \<le> owed n C"
    "owed n C - received n S \<le> open_total C - moved S"
    using sweep_creditor_side [OF D0 C0, of n] unfolding S by simp_all
  have slack: "open_total D - moved S \<le> real (min (length D) (length C)) / 100 \<or>
      open_total C - moved S \<le> real (min (length D) (length C)) / 100"
    unfolding S by (rule sweep_slack_min)
  have tD: "open_total D = sum_list (map (\<lambda>t. \<bar>balance t\<bar>) (filter (\<lambda>t. balance t < - (1 / 100)) totals))"
    unfolding D_def by (rule open_total_map)
  have tC: "open_total C = sum_list (map balance (filter (\<lambda>t. balance t > 1 / 100) totals))"
    unfolding C_def by (rule open_total_map)
  have lD: "length D = length (filter (\<lambda>t. balance t < - (1 / 100)) totals)"
    and lC: "length C = length (filter (\<lambda>t. balance t > 1 / 100) totals)"
    by (simp_all add: D_def C_def)
  define m where "m = max 1 (min (length D) (length C))"
  have m: "real (min (length D) (length C)) / 100 \<le> real m / 100" "1 / 100 \<le> real m / 100"
    by (simp_all add: m_def)
  have last: "\<bar>balance t + sent n S - received n S\<bar> \<le> real m / 100"
    if eq: "open_total D = open_total C"
  proof -
    from slack eq m have R: "open_total D - moved S \<le> real m / 100"
      "open_total C - moved S \<le> real m / 100"
      by linarith+
    show ?thesis
    proof (cases "balance t < - (1 / 100)")
      case True
      with oD oC have "owed n D = - balance t" "owed n C = 0"
        by simp_all
      with dside cside R show ?thesis
        by linarith
    next
      case False
      show ?thesis
      proof (cases "balance t > 1 / 100")
        case True
        with False oD oC have "owed n D = 0" "owed n C = balance t"
          by simp_all
        with dside cside R show ?thesis
          by linarith
      next
        case nc: False
        with False oD oC have "owed n D = 0" "owed n C = 0"
          by simp_all
        with dside cside m(2) False nc show ?thesis
          by linarith
      qed
    qed
  qed
  have p1: "sent n S \<le> (if balance t < - (1 / 100) then \<bar>balance t\<bar> else 0)"
    using dside(2) by (simp only: oD)
  have p2: "received n S \<le> (if balance t > 1 / 100 then balance t else 0)"
    using cside(2) by (simp only: oC)
  have p3: "sum_list (map (\<lambda>t. \<bar>balance t\<bar>) (filter (\<lambda>t. balance t < - (1 / 100)) totals)) =
       sum_list (map balance (filter (\<lambda>t. balance t > 1 / 100) totals)) \<longrightarrow>
     \<bar>balance t + sent n S - received n S\<bar>
      \<le> real (max 1 (min (length (filter (\<lambda>t. balance t < - (1 / 100)) totals))
                         (length (filter (\<lambda>t. balance t > 1 / 100) totals)))) / 100"
    using last unfolding tD tC lD lC m_def by blast
  from p1 p2 p3 show ?thesis
    unfolding S_def n_def by blast
qed

lemma final_balances_bound:
  assumes "sum_list (map (\<lambda>t. \<bar>balance t\<bar>) (filter (\<lambda>t. balance t < - (1 / 100)) totals)) =
       sum_list (map balance (filter (\<lambda>t. balance t > 1 / 100) totals))"
  shows "(\<forall>x\<in>set (debtors_of (settle_loop (settle_start totals))).
        balance x \<le> real (max 1 (min (length (filter (\<lambda>t. balance t < - (1 / 100)) totals))
                         (length (filter (\<lambda>t. balance t > 1 / 100) totals)))) / 100) \<and>
    (\<forall>x\<in>set (creditors_of (settle_loop (settle_start totals))).
        balance x \<le> real (max 1 (min (length (filter (\<lambda>t. balance t < - (1 / 100)) totals))
                         (length (filter (\<lambda>t. balance t > 1 / 100) totals)))) / 100)"
proof -
  define Dv where "Dv = map (\<lambda>t. (t_name t, \<bar>balance t\<bar>)) (filter (\<lambda>t. balance t < - (1 / 100)) totals)"
  define Cv where "Cv = map (\<lambda>t. (t_name t, balance t)) (filter (\<lambda>t. balance t > 1 / 100) totals)"
  define m where "m = max 1 (min (length (filter (\<lambda>t. balance t < - (1 / 100)) totals))
                         (length (filter (\<lambda>t. balance t > 1 / 100) totals)))"
  obtain ds cs d c ss where F: "settle_loop (settle_start totals) = (ds, cs, d, c, ss)"
    by (cases "settle_loop (settle_start totals)") auto
  have out: "ss = sweep Dv Cv"
    using calculateSettlements_sweep [of totals]
    by (simp add: calculateSettlements_def F settle_reference_def Dv_def Cv_def)
  have sD: "sum_list (map balance (debtors_of (settle_start totals))) = open_total Dv"
    and sC: "sum_list (map balance (creditors_of (settle_start totals))) = open_total Cv"
    by (simp_all add: settle_start_def Dv_def Cv_def open_total_def comp_def)
  from settled_from_final [of totals] have lo: "lowered (debtors_of (settle_start totals)) ds"
    "lowered (creditors_of (settle_start totals)) cs"
    and td: "sum_list (map balance ds) + moved ss = open_total Dv"
    and tc: "sum_list (map balance cs) + moved ss = open_total Cv"
    unfolding F by (simp_all add: sD sC)
  have eq: "open_total Dv = open_total Cv"
    using assms by (simp add: Dv_def Cv_def open_total_map)
  have slack: "open_total Dv - moved ss \<le> real (min (length Dv) (length Cv)) / 100 \<or>
      open_total Cv - moved ss \<le> real (min (length Dv) (length Cv)) / 100"
    unfolding out by (rule sweep_slack_min)
  have "real (min (length Dv) (length Cv)) / 100 \<le> real m / 100"
    by (simp add: m_def Dv_def Cv_def)
  with slack eq td tc have R: "sum_list (map balance ds) \<le> real m / 100"
    "sum_list (map balance cs) \<le> real m / 100"
    by linarith+
  have "balance x \<le> real m / 100" if "x \<in> set ds" for x
    using member_le_sum [OF lowered_nonneg [OF lo(1)] that] R(1) by linarith
  moreover have "balance x \<le> real m / 100" if "x \<in> set cs" for x
    using member_le_sum [OF lowered_nonneg [OF lo(2)] that] R(2) by linarith
  ultimately show ?thesis
    unfolding F m_def by simp
qed

section \<open>Finite balances in the loop on all values\<close>

lemma js_start_finite: "js_start (finite_totals totals) = finite_state (settle_start totals)"
proof -
  have "map (\<lambda>t. (fst t, js_abs (snd t)))
        (filter (\<lambda>t. js_lt (snd t) (Fin (- (1 / 100)))) (finite_totals totals)) =
      finite_totals (map (\<lambda>t. t\<lparr>balance := \<bar>balance t\<bar>\<rparr>)
        (filter (\<lambda>t. balance t < - (1 / 100)) totals))"
    by (induction totals) (simp_all add: finite_totals_def)
  moreover have "filter (\<lambda>t. js_lt (Fin (1 / 100)) (snd t)) (finite_totals totals) =
      finite_totals (filter (\<lambda>t. balance t > 1 / 100) totals)"
    by (induction totals) (simp_all add: finite_totals_def)
  ultimately show ?thesis
    by (simp add: js_start_def settle_start_def)
qed

lemma js_running_finite: "js_running (finite_state s) = running s"
  by (cases s) (simp add: finite_totals_def)

lemma js_step_finite:
  assumes "running s"
  shows "js_step (finite_state s) = finite_state (settle_step s)"
proof -
  obtain debtors creditors d c settlements
    where s: "s = (debtors, creditors, d, c, settlements)"
    by (cases s) auto
  from assms s have dc: "d < length debtors" "c < length creditors"
    by simp_all
  then show ?thesis
    unfolding s
    by (simp add: finite_totals_def Let_def map_update)
qed

lemma js_loop_finite:
  "cursor_room s < fuel \<Longrightarrow> js_loop fuel (finite_state s) = Some (finite_state (settle_loop s))"
proof (induction fuel arbitrary: s)
  case 0
  then show ?case by simp
next
  case (Suc fuel)
  show ?case
  proof (cases "running s")
    case True
    then have "cursor_room (settle_step s) < cursor_room s"
      by (rule settle_step_room)
    with Suc.prems have "cursor_room (settle_step s) < fuel"
      by simp
    then have "js_loop fuel (finite_state (settle_step s)) =
        Some (finite_state (settle_loop (settle_step s)))"
      by (rule Suc.IH)
    with True show ?thesis
      by (simp add: js_running_finite js_step_finite settle_loop.simps [of s])
  next
    case False
    then show ?thesis
      by (simp add: js_running_finite settle_loop.simps [of s])
  qed
qed

lemma stuck_step: "stuck s \<Longrightarrow> js_running s \<and> stuck (js_step s)"
  by (cases s) (auto simp: Let_def)

lemma stuck_forever: "stuck s \<Longrightarrow> js_loop fuel s = None"
proof (induction fuel arbitrary: s)
  case 0
  show ?case by simp
next
  case (Suc fuel)
  from stuck_step [OF Suc.prems] have "js_running s" "stuck (js_step s)"
    by simp_all
  then show ?case
    using Suc.IH by simp
qed

text \<open>
  With a debtor at \<open>-Infinity\<close> and a creditor at \<open>Infinity\<close> no amount of fuel lets
  the loop end: the first pass leaves \<open>NaN\<close> on both sides, and \<open>NaN < 0.01\<close> is false.
\<close>

lemma settle_loop_hangs_at_infinity:
  "js_loop fuel (js_start [(''A'', NInf), (''B'', PInf)]) = None"
  by (rule stuck_forever) (simp add: js_start_def)

section \<open>The claims\<close>

text \<open>
  Claim C1. Let the ids in every \<open>sharedBy\<close> of the bill be distinct (it is a set of
  ids). For a person of the list, the item total of the bill is the sum, over the
  items, of \<open>price / N\<close> for the items whose \<open>sharedBy\<close> (of \<open>N\<close> ids) contains the
  person, and of nothing for the others, the items with an empty \<open>sharedBy\<close> among
  them; each single item adds exactly that amount to the person's entry. The field
  \<open>qty\<close> has no influence: neither on the step for an item nor on the result of
  \<open>calculatePersonTotals\<close>. With distinct person ids, \<open>calculatePersonTotals\<close> on the
  bill alone returns for every person the shares of the bill.
\<close>

theorem item_price_split_equally:
  assumes "person' \<in> set people" and "\<forall>it\<in>set (items bill). distinct (sharedBy it)"
  shows "(\<exists>tx sv. bill_shares people bill person' =
        Inr (sum_list (map (\<lambda>it. if p_id person' \<in> set (sharedBy it)
                                 then price it / real (length (sharedBy it)) else 0) (items bill)),
             tx, sv)) \<and>
    (\<forall>it\<in>set (items bill). \<forall>m s v. m (p_id person') = Some v \<longrightarrow>
        fst (item_step it (m, s)) (p_id person') =
          Some (v + (if p_id person' \<in> set (sharedBy it)
                     then price it / real (length (sharedBy it)) else 0))) \<and>
    (\<forall>it q acc. item_step (it\<lparr>qty := q\<rparr>) acc = item_step it acc) \<and>
    (\<forall>g bills payments.
        calculatePersonTotals people
          (map (\<lambda>b. b\<lparr>items := map (\<lambda>it. it\<lparr>qty := g it\<rparr>) (items b)\<rparr>) bills) payments =
        calculatePersonTotals people bills payments) \<and>
    (distinct (map p_id people) \<longrightarrow>
       (\<forall>payments. \<exists>totals. calculatePersonTotals people [bill] payments = Inr totals \<and>
          map Inr (map (\<lambda>t. (itemTotal t, taxShare t, serviceShare t)) totals) =
            map (bill_shares people bill) people))"
proof (intro conjI ballI allI impI)
  have "bill_item_total bill (p_id person') =
      sum_list (map (\<lambda>it. if p_id person' \<in> set (sharedBy it)
                           then price it / real (length (sharedBy it)) else 0) (items bill))"
    unfolding bill_item_total_def
    by (rule arg_cong [where f = sum_list], rule map_cong)
      (simp_all add: assms(2) item_share_distinct)
  moreover have "bill_shares people bill person' = Inr (id_shares bill (p_id person'))"
    using assms(1) by (intro bill_shares_closed) simp
  ultimately show "\<exists>tx sv. bill_shares people bill person' =
        Inr (sum_list (map (\<lambda>it. if p_id person' \<in> set (sharedBy it)
                                 then price it / real (length (sharedBy it)) else 0) (items bill)),
             tx, sv)"
    by (simp add: id_shares_def)
next
  fix it :: item and m :: "string \<rightharpoonup> real" and s v :: real
  assume "it \<in> set (items bill)" and "m (p_id person') = Some v"
  then show "fst (item_step it (m, s)) (p_id person') =
          Some (v + (if p_id person' \<in> set (sharedBy it)
                     then price it / real (length (sharedBy it)) else 0))"
    using assms(2) by (simp add: item_step_closed item_share_distinct)
next
  fix it :: item and q acc
  show "item_step (it\<lparr>qty := q\<rparr>) acc = item_step it acc"
    by (cases acc) (simp add: item_step_def Let_def)
next
  fix g :: "item \<Rightarrow> real" and bills :: "receiptData list" and payments :: "payment list"
  let ?bills = "map (\<lambda>b. b\<lparr>items := map (\<lambda>it. it\<lparr>qty := g it\<rparr>) (items b)\<rparr>) bills"
  have share: "item_share (it\<lparr>qty := q\<rparr>) k = item_share it k" for it q k
    by (simp add: item_share_def)
  have bit: "bill_item_total (b\<lparr>items := map (\<lambda>it. it\<lparr>qty := g it\<rparr>) (items b)\<rparr>) k =
      bill_item_total b k" for b :: receiptData and k
    by (simp add: bill_item_total_def comp_def share)
  have base: "bill_base (b\<lparr>items := map (\<lambda>it. it\<lparr>qty := g it\<rparr>) (items b)\<rparr>) = bill_base b"
    for b :: receiptData
    by (simp add: bill_base_def assignedSubtotal_def baseForProportion_def filter_map comp_def)
  have "items_of ?bills k = items_of bills k" "tax_of ?bills k = tax_of bills k"
    "service_of ?bills k = service_of bills k" for k
    by (simp_all add: items_of_def tax_of_def service_of_def comp_def bit base)
  then have "totals_of people ?bills payments = totals_of people bills payments"
    by (intro ext) (simp add: totals_of_def)
  then show "calculatePersonTotals people ?bills payments =
      calculatePersonTotals people bills payments"
    by (simp add: calculatePersonTotals_closed)
next
  fix payments :: "payment list"
  assume "distinct (map p_id people)"
  then show "\<exists>totals. calculatePersonTotals people [bill] payments = Inr totals \<and>
      map Inr (map (\<lambda>t. (itemTotal t, taxShare t, serviceShare t)) totals) =
        map (bill_shares people bill) people"
    by (rule single_bill_shares)
qed

text \<open>An instance of C1: the first person and the two items of the sample bill.\<close>

theorem item_price_split_equally_witness:
  "\<lparr>p_id = ''p1'', p_name = ''A'', p_color = ''bg-red-500''\<rparr> \<in> set sample_people \<and>
   distinct [''p1'', ''p2''] \<and>
   bill_shares sample_people sample_bill \<lparr>p_id = ''p1'', p_name = ''A'', p_color = ''bg-red-500''\<rparr> =
     Inr (100, 10, 5) \<and>
   fst (item_step (mk_item ''i1'' 200 [''p1'', ''p2'']) (Map.empty(''p1'' \<mapsto> 7), 0)) ''p1'' =
     Some (7 + 200 / 2) \<and>
   fst (item_step (mk_item ''i2'' 90 []) (Map.empty(''p1'' \<mapsto> 7), 0)) ''p1'' = Some 7 \<and>
   item_step ((mk_item ''i1'' 200 [''p1'', ''p2''])\<lparr>qty := 4\<rparr>) (Map.empty(''p1'' \<mapsto> 7), 0) =
     item_step (mk_item ''i1'' 200 [''p1'', ''p2'']) (Map.empty(''p1'' \<mapsto> 7), 0)"
proof -
  define A where "A = \<lparr>p_id = ''p1'', p_name = ''A'', p_color = ''bg-red-500''\<rparr>"
  have mem: "A \<in> set sample_people"
    by (simp add: A_def sample_people_def)
  have dist: "\<forall>it\<in>set (items sample_bill). distinct (sharedBy it)"
    by (simp add: sample_bill_def mk_item_def)
  note inst = item_price_split_equally [OF mem dist]
  from inst obtain tx sv where "bill_shares sample_people sample_bill A =
      Inr (sum_list (map (\<lambda>it. if p_id A \<in> set (sharedBy it)
                                 then price it / real (length (sharedBy it)) else 0) (items sample_bill)),
             tx, sv)"
    by blast
  moreover have "bill_shares sample_people sample_bill A = Inr (100, 10, 5)"
    by (simp add: A_def allocator_defs sample_people_def sample_bill_def mk_item_def)
  ultimately have sh: "bill_shares sample_people sample_bill A = Inr (100, 10, 5)"
    by simp
  have i1: "mk_item ''i1'' 200 [''p1'', ''p2''] \<in> set (items sample_bill)"
    and i2: "mk_item ''i2'' 90 [] \<in> set (items sample_bill)"
    by (simp_all add: sample_bill_def)
  from inst have step: "\<forall>it\<in>set (items sample_bill). \<forall>m s v. m (p_id A) = Some v \<longrightarrow>
        fst (item_step it (m, s)) (p_id A) =
          Some (v + (if p_id A \<in> set (sharedBy it)
                     then price it / real (length (sharedBy it)) else 0))"
    by blast
  have m: "(Map.empty(''p1'' \<mapsto> 7 :: real)) (p_id A) = Some 7"
    by (simp add: A_def)
  from step i1 m have "fst (item_step (mk_item ''i1'' 200 [''p1'', ''p2''])
        (Map.empty(''p1'' \<mapsto> 7), 0)) (p_id A) =
      Some (7 + (if p_id A \<in> set (sharedBy (mk_item ''i1'' 200 [''p1'', ''p2'']))
        then price (mk_item ''i1'' 200 [''p1'', ''p2''])
          / real (length (sharedBy (mk_item ''i1'' 200 [''p1'', ''p2'']))) else 0))"
    by blast
  then have s1: "fst (item_step (mk_item ''i1'' 200 [''p1'', ''p2''])
        (Map.empty(''p1'' \<mapsto> 7), 0)) ''p1'' = Some (7 + 200 / 2)"
    by (simp add: A_def mk_item_def)
  from step i2 m have "fst (item_step (mk_item ''i2'' 90 [])
        (Map.empty(''p1'' \<mapsto> 7), 0)) (p_id A) =
      Some (7 + (if p_id A \<in> set (sharedBy (mk_item ''i2'' 90 []))
        then price (mk_item ''i2'' 90 [])
          / real (length (sharedBy (mk_item ''i2'' 90 []))) else 0))"
    by blast
  then have s2: "fst (item_step (mk_item ''i2'' 90 []) (Map.empty(''p1'' \<mapsto> 7), 0)) ''p1'' = Some 7"
    by (simp add: A_def mk_item_def)
  from inst have "item_step ((mk_item ''i1'' 200 [''p1'', ''p2''])\<lparr>qty := 4\<rparr>) (Map.empty(''p1'' \<mapsto> 7), 0) =
     item_step (mk_item ''i1'' 200 [''p1'', ''p2'']) (Map.empty(''p1'' \<mapsto> 7), 0)"
    by blast
  with mem sh s1 s2 show ?thesis
    unfolding A_def by simp
qed

text \<open>
  Claim C2, amended. Let the person ids be distinct and every id in a \<open>sharedBy\<close> of
  the bill be the id of a person. The accumulator \<open>billAssignedSubtotal\<close> is the
  assigned subtotal, and the item totals of all people add up to it; the shares of the
  bill are what \<open>calculatePersonTotals\<close> returns on the bill alone. If the assigned
  subtotal is positive, the tax shares of all people add up to \<open>bill.tax\<close> and the
  service shares to \<open>bill.serviceCharge\<close>. If it is zero and no assigned item has a
  negative price, every tax share and every service share of the bill is zero.
\<close>

theorem tax_and_service_fully_distributed:
  assumes "distinct (map p_id people)"
    and "\<forall>it\<in>set (items bill). set (sharedBy it) \<subseteq> p_id ` set people"
  shows "snd (bill_items people bill) = assignedSubtotal bill \<and>
    (\<exists>shares. map (bill_shares people bill) people = map Inr shares \<and>
       (\<forall>payments. \<exists>totals. calculatePersonTotals people [bill] payments = Inr totals \<and>
          map (\<lambda>t. (itemTotal t, taxShare t, serviceShare t)) totals = shares) \<and>
       sum_list (map fst shares) = assignedSubtotal bill \<and>
       (0 < assignedSubtotal bill \<longrightarrow>
          sum_list (map (\<lambda>sh. fst (snd sh)) shares) = tax bill \<and>
          sum_list (map (\<lambda>sh. snd (snd sh)) shares) = serviceCharge bill) \<and>
       (assignedSubtotal bill = 0 \<and>
        (\<forall>it\<in>set (items bill). sharedBy it \<noteq> [] \<longrightarrow> 0 \<le> price it) \<longrightarrow>
          (\<forall>sh\<in>set shares. fst (snd sh) = 0 \<and> snd (snd sh) = 0)))"
proof -
  define shares where "shares = map (\<lambda>p. id_shares bill (p_id p)) people"
  have run: "map (bill_shares people bill) people = map Inr shares"
    unfolding shares_def by (rule bill_shares_people)
  have items: "sum_list (map fst shares) = assignedSubtotal bill"
    unfolding shares_def using assms by (rule sum_item_totals_assigned)
  have pos: "sum_list (map (\<lambda>sh. fst (snd sh)) shares) = tax bill \<and>
      sum_list (map (\<lambda>sh. snd (snd sh)) shares) = serviceCharge bill"
    if "0 < assignedSubtotal bill"
  proof -
    from that have "bill_base bill = assignedSubtotal bill" "assignedSubtotal bill \<noteq> 0"
      by (simp_all add: bill_base_assigned)
    then show ?thesis
      using items sum_tax_parts [of bill people] sum_service_parts [of bill people]
      by (simp add: shares_def)
  qed
  have zero: "\<forall>sh\<in>set shares. fst (snd sh) = 0 \<and> snd (snd sh) = 0"
    if "assignedSubtotal bill = 0 \<and>
        (\<forall>it\<in>set (items bill). sharedBy it \<noteq> [] \<longrightarrow> 0 \<le> price it)"
  proof -
    from that have "bill_item_total bill k = 0" for k
      by (intro no_priced_assignment) simp_all
    then show ?thesis
      by (simp add: shares_def id_shares_def)
  qed
  have alone: "\<forall>payments. \<exists>totals. calculatePersonTotals people [bill] payments = Inr totals \<and>
      map (\<lambda>t. (itemTotal t, taxShare t, serviceShare t)) totals = shares"
    unfolding shares_def using assms(1) by (intro allI single_bill_run)
  have "snd (bill_items people bill) = assignedSubtotal bill"
    by (simp add: bill_items_closed)
  with run alone items pos zero show ?thesis
    by blast
qed

text \<open>An instance of the amended C2: the sample bill, with assigned subtotal \<open>200\<close>.\<close>

theorem tax_and_service_fully_distributed_witness:
  "distinct (map p_id sample_people) \<and>
   list_all (\<lambda>it. set (sharedBy it) \<subseteq> p_id ` set sample_people) (items sample_bill) \<and>
   assignedSubtotal sample_bill = 200 \<and>
   map (bill_shares sample_people sample_bill) sample_people =
     map Inr [(100, 10, 5), (100, 10, 5), (0, 0, 0)] \<and>
   sum_list (map (\<lambda>sh. fst (snd sh)) [(100, 10, 5), (100, 10, 5), (0, 0, 0 :: real) :: real \<times> real \<times> real])
     = tax sample_bill \<and>
   sum_list (map (\<lambda>sh. snd (snd sh)) [(100, 10, 5), (100, 10, 5), (0, 0, 0 :: real) :: real \<times> real \<times> real])
     = serviceCharge sample_bill"
proof -
  have d: "distinct (map p_id sample_people)"
    by (simp add: sample_people_def)
  have k: "\<forall>it\<in>set (items sample_bill). set (sharedBy it) \<subseteq> p_id ` set sample_people"
    by (simp add: sample_people_def sample_bill_def mk_item_def)
  have a: "assignedSubtotal sample_bill = 200"
    by (simp add: assignedSubtotal_def sample_bill_def mk_item_def)
  have ev: "map (bill_shares sample_people sample_bill) sample_people =
     map Inr [(100, 10, 5), (100, 10, 5), (0, 0, 0)]"
    by (simp add: allocator_defs sample_people_def sample_bill_def mk_item_def)
  from tax_and_service_fully_distributed [OF d k] a obtain shares
    where "map (bill_shares sample_people sample_bill) sample_people = map Inr shares"
    and "sum_list (map (\<lambda>sh. fst (snd sh)) shares) = tax sample_bill"
    and "sum_list (map (\<lambda>sh. snd (snd sh)) shares) = serviceCharge sample_bill"
    by auto
  moreover from this(1) ev have "map Inr shares =
      map (Inr :: real \<times> real \<times> real \<Rightarrow> failure + real \<times> real \<times> real)
        [(100, 10, 5), (100, 10, 5), (0, 0, 0)]"
    by simp
  then have "shares = [(100, 10, 5), (100, 10, 5), (0, 0, 0)]"
    by (simp only: inj_map_eq_map [OF inj_Inr])
  ultimately show ?thesis
    using d k a ev by (simp add: list_all_iff)
qed

text \<open>
  C2 as stated fails on the bill with the discount line: every \<open>sharedBy\<close> id is a
  person, the assigned subtotal is zero, and the tax share of the first person is \<open>50\<close>.
\<close>

theorem negative_price_counterexample:
  "distinct (map p_id sample_people) \<and>
   list_all (\<lambda>it. set (sharedBy it) \<subseteq> p_id ` set sample_people) (items discount_bill) \<and>
   assignedSubtotal discount_bill = 0 \<and>
   snd (bill_items sample_people discount_bill) = 0 \<and>
   bill_shares sample_people discount_bill
     \<lparr>p_id = ''p1'', p_name = ''A'', p_color = ''bg-red-500''\<rparr> = Inr (10, 50, 0) \<and>
   (50 :: real) \<noteq> 0"
  by (simp add: allocator_defs sample_people_def discount_bill_def mk_item_def)

text \<open>
  Claim C3, amended. Every array of the loop ends with the people it started with, and
  with no balance below zero or above where it started; for every name, the transfers
  sent under it add up to what the balances of the debtors of that name were lowered
  by, and the transfers received under it to what those of the creditors of that name
  were lowered by. So no person sends more than their debt or receives more than their
  credit. When the debts and the credits have the same total, every balance the loop
  leaves is at most \<open>0.01 * max(1, min(number of debtors, number of creditors))\<close>. For
  a person who alone bears their name this reads on the output: the transfers sent add
  up to at most the debt, those received to at most the credit, and with equal totals
  the balance after all transfers is within that bound of zero.
\<close>

theorem settlement_within_scaled_tolerance:
  "lowered (debtors_of (settle_start totals)) (debtors_of (settle_loop (settle_start totals))) \<and>
   lowered (creditors_of (settle_start totals)) (creditors_of (settle_loop (settle_start totals))) \<and>
   (\<forall>n. sent n (calculateSettlements totals) =
          paid_off n (debtors_of (settle_start totals))
            (debtors_of (settle_loop (settle_start totals))) \<and>
        received n (calculateSettlements totals) =
          paid_off n (creditors_of (settle_start totals))
            (creditors_of (settle_loop (settle_start totals)))) \<and>
   (sum_list (map (\<lambda>t. \<bar>balance t\<bar>) (filter (\<lambda>t. balance t < - (1 / 100)) totals)) =
      sum_list (map balance (filter (\<lambda>t. balance t > 1 / 100) totals)) \<longrightarrow>
    (\<forall>x\<in>set (debtors_of (settle_loop (settle_start totals))).
        balance x \<le> real (max 1 (min (length (filter (\<lambda>t. balance t < - (1 / 100)) totals))
                         (length (filter (\<lambda>t. balance t > 1 / 100) totals)))) / 100) \<and>
    (\<forall>x\<in>set (creditors_of (settle_loop (settle_start totals))).
        balance x \<le> real (max 1 (min (length (filter (\<lambda>t. balance t < - (1 / 100)) totals))
                         (length (filter (\<lambda>t. balance t > 1 / 100) totals)))) / 100)) \<and>
   (\<forall>t\<in>set totals. filter (\<lambda>u. t_name u = t_name t) totals = [t] \<longrightarrow>
      sent (t_name t) (calculateSettlements totals)
        \<le> (if balance t < - (1 / 100) then \<bar>balance t\<bar> else 0) \<and>
      received (t_name t) (calculateSettlements totals)
        \<le> (if balance t > 1 / 100 then balance t else 0) \<and>
      (sum_list (map (\<lambda>t. \<bar>balance t\<bar>) (filter (\<lambda>t. balance t < - (1 / 100)) totals)) =
         sum_list (map balance (filter (\<lambda>t. balance t > 1 / 100) totals)) \<longrightarrow>
       \<bar>balance t + sent (t_name t) (calculateSettlements totals)
          - received (t_name t) (calculateSettlements totals)\<bar>
        \<le> real (max 1 (min (length (filter (\<lambda>t. balance t < - (1 / 100)) totals))
                           (length (filter (\<lambda>t. balance t > 1 / 100) totals)))) / 100))"
proof -
  obtain ds cs d c ss where F: "settle_loop (settle_start totals) = (ds, cs, d, c, ss)"
    by (cases "settle_loop (settle_start totals)") auto
  have out: "calculateSettlements totals = ss"
    by (simp add: calculateSettlements_def F)
  from settled_from_final [of totals]
  have a: "lowered (debtors_of (settle_start totals)) (debtors_of (settle_loop (settle_start totals)))"
    and b: "lowered (creditors_of (settle_start totals)) (creditors_of (settle_loop (settle_start totals)))"
    and c: "\<forall>n. sent n (calculateSettlements totals) =
          paid_off n (debtors_of (settle_start totals))
            (debtors_of (settle_loop (settle_start totals))) \<and>
        received n (calculateSettlements totals) =
          paid_off n (creditors_of (settle_start totals))
            (creditors_of (settle_loop (settle_start totals)))"
    unfolding out F by simp_all
  note d = final_balances_bound [of totals]
  note e = unique_name_bounds [of _ totals]
  from a b c d e show ?thesis
    by (intro conjI impI ballI) blast+
qed

text \<open>
  An instance of the amended C3 on the first sample list, with two debtors and three
  creditors: the balances left are \<open>0.008\<close> twice and \<open>0\<close>, \<open>0\<close>, \<open>0.016\<close>, and the
  bound is \<open>0.02\<close>.
\<close>

theorem settlement_within_scaled_tolerance_witness:
  "lowered (debtors_of (settle_start residue_totals))
     (debtors_of (settle_loop (settle_start residue_totals))) \<and>
   sent ''A'' (calculateSettlements residue_totals) =
     paid_off ''A'' (debtors_of (settle_start residue_totals))
       (debtors_of (settle_loop (settle_start residue_totals))) \<and>
   sent ''A'' (calculateSettlements residue_totals) = 1 \<and>
   sum_list (map (\<lambda>t. \<bar>balance t\<bar>) (filter (\<lambda>t. balance t < - (1 / 100)) residue_totals)) =
     sum_list (map balance (filter (\<lambda>t. balance t > 1 / 100) residue_totals)) \<and>
   map balance (debtors_of (settle_loop (settle_start residue_totals))) = [1 / 125, 1 / 125] \<and>
   map balance (creditors_of (settle_loop (settle_start residue_totals))) = [0, 0, 2 / 125] \<and>
   (2 / 125 :: real) \<le> real (max 1 (min 2 3)) / 100 \<and>
   mk_totals ''E'' (2 / 125) \<in> set residue_totals \<and>
   filter (\<lambda>u. t_name u = t_name (mk_totals ''E'' (2 / 125))) residue_totals =
     [mk_totals ''E'' (2 / 125)] \<and>
   sent ''E'' (calculateSettlements residue_totals) \<le> 0 \<and>
   \<bar>2 / 125 + sent ''E'' (calculateSettlements residue_totals)
      - received ''E'' (calculateSettlements residue_totals)\<bar> \<le> 2 / 100"
proof -
  note inst = settlement_within_scaled_tolerance [of residue_totals]
  have F: "settle_loop (settle_start residue_totals) =
      ([(mk_totals ''A'' (- (126 / 125)))\<lparr>balance := 1 / 125\<rparr>,
        (mk_totals ''B'' (- (126 / 125)))\<lparr>balance := 1 / 125\<rparr>],
       [(mk_totals ''C'' 1)\<lparr>balance := 0\<rparr>, (mk_totals ''D'' 1)\<lparr>balance := 0\<rparr>,
        mk_totals ''E'' (2 / 125)],
       2, 2,
       [\<lparr>s_from = ''A'', s_to = ''C'', s_amount = 1\<rparr>,
        \<lparr>s_from = ''B'', s_to = ''D'', s_amount = 1\<rparr>])"
    by (simp add: settle_start_def residue_totals_def mk_totals_def settle_loop.simps Let_def)
  have out: "calculateSettlements residue_totals =
      [\<lparr>s_from = ''A'', s_to = ''C'', s_amount = 1\<rparr>, \<lparr>s_from = ''B'', s_to = ''D'', s_amount = 1\<rparr>]"
    by (simp add: calculateSettlements_def F)
  have eq: "sum_list (map (\<lambda>t. \<bar>balance t\<bar>) (filter (\<lambda>t. balance t < - (1 / 100)) residue_totals)) =
     sum_list (map balance (filter (\<lambda>t. balance t > 1 / 100) residue_totals))"
    by (simp add: residue_totals_def mk_totals_def)
  have mem: "mk_totals ''E'' (2 / 125) \<in> set residue_totals"
    and single: "filter (\<lambda>u. t_name u = t_name (mk_totals ''E'' (2 / 125))) residue_totals =
     [mk_totals ''E'' (2 / 125)]"
    by (simp_all add: residue_totals_def mk_totals_def)
  have lens: "length (filter (\<lambda>t. balance t < - (1 / 100)) residue_totals) = 2"
    "length (filter (\<lambda>t. balance t > 1 / 100) residue_totals) = 3"
    by (simp_all add: residue_totals_def mk_totals_def)
  from inst have low: "lowered (debtors_of (settle_start residue_totals))
     (debtors_of (settle_loop (settle_start residue_totals)))"
    and link: "sent ''A'' (calculateSettlements residue_totals) =
     paid_off ''A'' (debtors_of (settle_start residue_totals))
       (debtors_of (settle_loop (settle_start residue_totals)))"
    by blast+
  from inst mem single eq have e: "sent (t_name (mk_totals ''E'' (2 / 125))) (calculateSettlements residue_totals)
        \<le> (if balance (mk_totals ''E'' (2 / 125)) < - (1 / 100)
            then \<bar>balance (mk_totals ''E'' (2 / 125))\<bar> else 0)"
    "\<bar>balance (mk_totals ''E'' (2 / 125))
        + sent (t_name (mk_totals ''E'' (2 / 125))) (calculateSettlements residue_totals)
        - received (t_name (mk_totals ''E'' (2 / 125))) (calculateSettlements residue_totals)\<bar>
      \<le> real (max 1 (min (length (filter (\<lambda>t. balance t < - (1 / 100)) residue_totals))
                         (length (filter (\<lambda>t. balance t > 1 / 100) residue_totals)))) / 100"
    by blast+
  then have e': "sent ''E'' (calculateSettlements residue_totals) \<le> 0"
    "\<bar>2 / 125 + sent ''E'' (calculateSettlements residue_totals)
      - received ''E'' (calculateSettlements residue_totals)\<bar> \<le> 2 / 100"
    unfolding lens by (simp_all add: mk_totals_def)
  have bal: "map balance (debtors_of (settle_loop (settle_start residue_totals))) = [1 / 125, 1 / 125]"
    "map balance (creditors_of (settle_loop (settle_start residue_totals))) = [0, 0, 2 / 125]"
    by (simp_all add: F mk_totals_def)
  have "sent ''A'' (calculateSettlements residue_totals) = 1"
    by (simp add: out sent_def)
  with low link eq bal mem single e' show ?thesis
    by simp
qed

text \<open>
  C3 as stated fails on the first sample list: debts and credits both add up to
  \<open>2.016\<close>, the two transfers are of \<open>1\<close> each, and the fifth person is still owed
  \<open>0.016\<close>.
\<close>

theorem settlement_residue_counterexample:
  "distinct (map t_name residue_totals) \<and>
   sum_list (map (\<lambda>t. \<bar>balance t\<bar>) (filter (\<lambda>t. balance t < - (1 / 100)) residue_totals)) =
     sum_list (map balance (filter (\<lambda>t. balance t > 1 / 100) residue_totals)) \<and>
   mk_totals ''E'' (2 / 125) \<in> set residue_totals \<and>
   \<not> \<bar>balance (mk_totals ''E'' (2 / 125))
        + sent (t_name (mk_totals ''E'' (2 / 125))) (calculateSettlements residue_totals)
        - received (t_name (mk_totals ''E'' (2 / 125))) (calculateSettlements residue_totals)\<bar>
      \<le> 1 / 100"
  by (simp add: calculateSettlements_def settle_start_def residue_totals_def mk_totals_def
      settle_loop.simps Let_def sent_def received_def)

text \<open>
  Claim C4, amended. The base of the proportion is the assigned subtotal when that is
  positive; otherwise the stored subtotal when that is not zero; otherwise \<open>1\<close>. For a
  person of the list with item total \<open>it\<close> in the bill, the tax share is
  \<open>bill.tax * (it / base)\<close> and the service share \<open>bill.serviceCharge * (it / base)\<close>.
  With distinct person ids, \<open>calculatePersonTotals\<close> on the bill alone returns for every
  person the shares of the bill.
\<close>

theorem proportion_base_with_fallbacks:
  assumes "person' \<in> set people"
  shows "snd (bill_items people bill) = assignedSubtotal bill \<and>
    baseForProportion (snd (bill_items people bill)) bill =
      (if 0 < assignedSubtotal bill then assignedSubtotal bill
       else if subtotal bill \<noteq> 0 then subtotal bill else 1) \<and>
    (\<exists>it. fst (bill_items people bill) (p_id person') = Some it \<and>
       bill_shares people bill person' =
         Inr (it,
              tax bill * (it / (if 0 < assignedSubtotal bill then assignedSubtotal bill
                                else if subtotal bill \<noteq> 0 then subtotal bill else 1)),
              serviceCharge bill * (it / (if 0 < assignedSubtotal bill then assignedSubtotal bill
                                else if subtotal bill \<noteq> 0 then subtotal bill else 1)))) \<and>
    (distinct (map p_id people) \<longrightarrow>
       (\<forall>payments. \<exists>totals. calculatePersonTotals people [bill] payments = Inr totals \<and>
          map Inr (map (\<lambda>t. (itemTotal t, taxShare t, serviceShare t)) totals) =
            map (bill_shares people bill) people))"
proof -
  have a: "snd (bill_items people bill) = assignedSubtotal bill"
    by (simp add: bill_items_closed)
  have b: "baseForProportion (assignedSubtotal bill) bill =
      (if 0 < assignedSubtotal bill then assignedSubtotal bill
       else if subtotal bill \<noteq> 0 then subtotal bill else 1)"
    by (simp add: baseForProportion_def)
  from assms have mem: "p_id person' \<in> p_id ` set people"
    by simp
  then have c: "fst (bill_items people bill) (p_id person') = Some (bill_item_total bill (p_id person'))"
    by (simp add: bill_items_closed)
  have "bill_shares people bill person' = Inr (id_shares bill (p_id person'))"
    using mem by (rule bill_shares_closed)
  then have d: "bill_shares people bill person' =
      Inr (bill_item_total bill (p_id person'),
           tax bill * (bill_item_total bill (p_id person') / baseForProportion (assignedSubtotal bill) bill),
           serviceCharge bill *
             (bill_item_total bill (p_id person') / baseForProportion (assignedSubtotal bill) bill))"
    by (simp add: id_shares_def bill_base_def)
  have e: "distinct (map p_id people) \<longrightarrow>
       (\<forall>payments. \<exists>totals. calculatePersonTotals people [bill] payments = Inr totals \<and>
          map Inr (map (\<lambda>t. (itemTotal t, taxShare t, serviceShare t)) totals) =
            map (bill_shares people bill) people)"
    by (intro impI allI single_bill_shares)
  from a b c d e show ?thesis
    by (simp only:) blast
qed

text \<open>
  An instance of the amended C4: in the sample bill the base is the assigned subtotal
  \<open>200\<close>, not the stored subtotal \<open>290\<close>.
\<close>

theorem proportion_base_with_fallbacks_witness:
  "\<lparr>p_id = ''p1'', p_name = ''A'', p_color = ''bg-red-500''\<rparr> \<in> set sample_people \<and>
   assignedSubtotal sample_bill = 200 \<and> subtotal sample_bill = 290 \<and>
   baseForProportion (snd (bill_items sample_people sample_bill)) sample_bill = 200 \<and>
   bill_shares sample_people sample_bill \<lparr>p_id = ''p1'', p_name = ''A'', p_color = ''bg-red-500''\<rparr> =
     Inr (100, 20 * (100 / 200), 10 * (100 / 200))"
proof -
  define A where "A = \<lparr>p_id = ''p1'', p_name = ''A'', p_color = ''bg-red-500''\<rparr>"
  have mem: "A \<in> set sample_people"
    by (simp add: A_def sample_people_def)
  have a: "assignedSubtotal sample_bill = 200" and s: "subtotal sample_bill = 290"
    and t: "tax sample_bill = 20" "serviceCharge sample_bill = 10"
    by (simp_all add: assignedSubtotal_def sample_bill_def mk_item_def)
  have it: "fst (bill_items sample_people sample_bill) (p_id A) = Some 100"
    by (simp add: A_def allocator_defs sample_people_def sample_bill_def mk_item_def)
  from proportion_base_with_fallbacks [OF mem, of sample_bill] a s t it
  have "baseForProportion (snd (bill_items sample_people sample_bill)) sample_bill = 200"
    and "bill_shares sample_people sample_bill A = Inr (100, 20 * (100 / 200), 10 * (100 / 200))"
    by auto
  with mem a s show ?thesis
    unfolding A_def by simp
qed

text \<open>
  C4 as stated fails on the empty bill: the assigned subtotal is not positive, the
  stored subtotal is zero, and the base is \<open>1\<close>.
\<close>

theorem zero_subtotal_base_counterexample:
  "\<not> 0 < snd (bill_items sample_people manual_bill) \<and>
   subtotal manual_bill = 0 \<and>
   baseForProportion (snd (bill_items sample_people manual_bill)) manual_bill = 1 \<and>
   baseForProportion (snd (bill_items sample_people manual_bill)) manual_bill \<noteq> subtotal manual_bill"
  by (simp add: allocator_defs sample_people_def manual_bill_def)

text \<open>
  Claim C5. For every list of person totals, \<open>calculateSettlements\<close> returns what the
  reference algorithm returns: debtors and creditors in the order of the list, one
  cursor into each, a transfer of the smaller remaining balance at each step, and the
  two cursors advanced independently of each other when a remaining balance falls
  below \<open>0.01\<close>.
\<close>

theorem calculateSettlements_is_reference_sweep:
  "calculateSettlements totals = settle_reference totals"
  by (rule calculateSettlements_sweep)

text \<open>
  Claim C6, amended. For every list of person totals with finite balances, the loop of
  \<open>calculateSettlements\<close> ends after at most as many passes as there are people; every
  pass starts with both cursors in range and moves at least one of them forward; at
  the end at least one cursor is at the end of its list, and every entry behind a
  cursor holds less than \<open>0.01\<close>. When the debts and the credits have the same total at
  the start, the balances left in the two arrays have the same total at the end. The
  loop on all values of a number, started on the same finite balances, ends with the
  same state, on fuel for one pass per person.
\<close>

theorem settle_loop_terminates_one_side_exhausted:
  "(\<exists>n\<le>length totals.
      settle_loop (settle_start totals) = (settle_step ^^ n) (settle_start totals) \<and>
      (\<forall>k<n. running ((settle_step ^^ k) (settle_start totals)) \<and>
         advanced ((settle_step ^^ k) (settle_start totals))
           ((settle_step ^^ Suc k) (settle_start totals)))) \<and>
   (debtors_done (settle_loop (settle_start totals)) \<or>
    creditors_done (settle_loop (settle_start totals))) \<and>
   passed_settled (settle_loop (settle_start totals)) \<and>
   (sum_list (map (\<lambda>t. \<bar>balance t\<bar>) (filter (\<lambda>t. balance t < - (1 / 100)) totals)) =
      sum_list (map balance (filter (\<lambda>t. balance t > 1 / 100) totals)) \<longrightarrow>
    open_gap (settle_loop (settle_start totals)) = 0) \<and>
   (\<exists>fuel\<le>Suc (length totals).
      js_loop fuel (js_start (finite_totals totals)) =
        Some (finite_state (settle_loop (settle_start totals))))"
proof -
  define s0 where "s0 = settle_start totals"
  obtain n where n: "n \<le> cursor_room s0" "settle_loop s0 = (settle_step ^^ n) s0"
    "\<forall>k<n. running ((settle_step ^^ k) s0)"
    using settle_loop_iterations [of s0] by blast
  have "length (filter (\<lambda>t. balance t < - (1 / 100)) totals)
      + length (filter (\<lambda>t. \<not> balance t < - (1 / 100)) totals) = length totals"
    by (rule sum_length_filter_compl)
  moreover have "length (filter (\<lambda>t. balance t > 1 / 100) totals)
      \<le> length (filter (\<lambda>t. \<not> balance t < - (1 / 100)) totals)"
    by (induction totals) auto
  ultimately have room: "cursor_room s0 \<le> length totals"
    by (simp add: s0_def settle_start_def)
  with n(1) have bound: "n \<le> length totals"
    by simp
  have "js_loop (Suc (cursor_room s0)) (finite_state s0) = Some (finite_state (settle_loop s0))"
    by (rule js_loop_finite) simp
  with room have fuel: "\<exists>fuel\<le>Suc (length totals).
      js_loop fuel (js_start (finite_totals totals)) = Some (finite_state (settle_loop s0))"
    unfolding s0_def js_start_finite by (intro exI [of _ "Suc (cursor_room (settle_start totals))"]) simp
  have adv: "\<forall>k<n. running ((settle_step ^^ k) s0) \<and>
      advanced ((settle_step ^^ k) s0) ((settle_step ^^ Suc k) s0)"
    using n(3) by (simp add: settle_step_advanced)
  have inv: "passed_settled (settle_loop s0) \<and> \<not> running (settle_loop s0)"
    by (rule settle_loop_rule [where P = passed_settled])
      (simp_all add: s0_def settle_start_def settle_step_passed)
  then have fin: "debtors_done (settle_loop s0) \<or> creditors_done (settle_loop s0)"
    by (cases "settle_loop s0") auto
  have gap: "open_gap (settle_loop s0) = open_gap s0 \<and> \<not> running (settle_loop s0)"
    by (rule settle_loop_rule [where P = "\<lambda>s. open_gap s = open_gap s0"])
      (simp_all add: settle_step_gap)
  have "open_gap s0 =
      sum_list (map (\<lambda>t. \<bar>balance t\<bar>) (filter (\<lambda>t. balance t < - (1 / 100)) totals)) -
      sum_list (map balance (filter (\<lambda>t. balance t > 1 / 100) totals))"
    by (simp add: s0_def settle_start_def comp_def)
  with gap have "sum_list (map (\<lambda>t. \<bar>balance t\<bar>) (filter (\<lambda>t. balance t < - (1 / 100)) totals)) =
      sum_list (map balance (filter (\<lambda>t. balance t > 1 / 100) totals)) \<longrightarrow>
    open_gap (settle_loop s0) = 0"
    by simp
  with bound n(2) adv fin inv fuel show ?thesis
    unfolding s0_def by blast
qed

text \<open>An instance of the amended C6 on the first sample list.\<close>

theorem settle_loop_terminates_one_side_exhausted_witness:
  "sum_list (map (\<lambda>t. \<bar>balance t\<bar>) (filter (\<lambda>t. balance t < - (1 / 100)) residue_totals)) =
      sum_list (map balance (filter (\<lambda>t. balance t > 1 / 100) residue_totals)) \<and>
   open_gap (settle_loop (settle_start residue_totals)) = 0 \<and>
   debtors_done (settle_loop (settle_start residue_totals)) \<and>
   passed_settled (settle_loop (settle_start residue_totals))"
proof -
  have "sum_list (map (\<lambda>t. \<bar>balance t\<bar>) (filter (\<lambda>t. balance t < - (1 / 100)) residue_totals)) =
      sum_list (map balance (filter (\<lambda>t. balance t > 1 / 100) residue_totals))"
    by (simp add: residue_totals_def mk_totals_def)
  moreover have "debtors_done (settle_loop (settle_start residue_totals))"
    by (simp add: settle_start_def residue_totals_def mk_totals_def settle_loop.simps Let_def)
  ultimately show ?thesis
    using settle_loop_terminates_one_side_exhausted [of residue_totals] by blast
qed

text \<open>
  C6 as stated fails on the first sample list: the totals are equal, the debtor cursor
  reaches the end after two passes, and the creditor cursor stops at the third
  creditor.
\<close>

theorem creditor_cursor_stops_short:
  "sum_list (map (\<lambda>t. \<bar>balance t\<bar>) (filter (\<lambda>t. balance t < - (1 / 100)) residue_totals)) =
      sum_list (map balance (filter (\<lambda>t. balance t > 1 / 100) residue_totals)) \<and>
   \<not> (debtors_done (settle_loop (settle_start residue_totals)) \<and>
      creditors_done (settle_loop (settle_start residue_totals)))"
  by (simp add: settle_start_def residue_totals_def mk_totals_def settle_loop.simps Let_def)

text \<open>
  Claim C7. The sender of every transfer bears the name of a person whose balance is
  below \<open>-0.01\<close>, and the receiver the name of a person whose balance is above \<open>0.01\<close>.
  A person within \<open>0.01\<close> of zero is named in no transfer, provided no namesake is
  outside that band (transfers carry names, not ids); and leaving all such people out
  of the input does not change the output.
\<close>

theorem transfers_only_between_debtors_and_creditors:
  "(\<forall>s\<in>set (calculateSettlements totals).
      (\<exists>t\<in>set totals. t_name t = s_from s \<and> balance t < - (1 / 100)) \<and>
      (\<exists>t\<in>set totals. t_name t = s_to s \<and> balance t > 1 / 100)) \<and>
   (\<forall>t\<in>set totals. \<bar>balance t\<bar> \<le> 1 / 100 \<longrightarrow>
      (\<forall>u\<in>set totals. t_name u = t_name t \<longrightarrow> \<bar>balance u\<bar> \<le> 1 / 100) \<longrightarrow>
      (\<forall>s\<in>set (calculateSettlements totals). s_from s \<noteq> t_name t \<and> s_to s \<noteq> t_name t)) \<and>
   calculateSettlements (filter (\<lambda>t. \<not> \<bar>balance t\<bar> \<le> 1 / 100) totals) =
     calculateSettlements totals"
proof (intro conjI ballI impI)
  fix s
  assume "s \<in> set (calculateSettlements totals)"
  then have "s_from s \<in> fst ` set (map (\<lambda>t. (t_name t, \<bar>balance t\<bar>))
        (filter (\<lambda>t. balance t < - (1 / 100)) totals))"
    and "s_to s \<in> fst ` set (map (\<lambda>t. (t_name t, balance t))
        (filter (\<lambda>t. balance t > 1 / 100) totals))"
    unfolding calculateSettlements_sweep settle_reference_def
    by (rule sweep_names [THEN conjunct1], rule sweep_names [THEN conjunct2])
  then show "\<exists>t\<in>set totals. t_name t = s_from s \<and> balance t < - (1 / 100)"
    and "\<exists>t\<in>set totals. t_name t = s_to s \<and> balance t > 1 / 100"
    by auto
next
  fix t s
  assume t: "t \<in> set totals" "\<bar>balance t\<bar> \<le> 1 / 100"
    and same: "\<forall>u\<in>set totals. t_name u = t_name t \<longrightarrow> \<bar>balance u\<bar> \<le> 1 / 100"
    and s: "s \<in> set (calculateSettlements totals)"
  from s have "s_from s \<in> fst ` set (map (\<lambda>t. (t_name t, \<bar>balance t\<bar>))
        (filter (\<lambda>t. balance t < - (1 / 100)) totals))"
    and "s_to s \<in> fst ` set (map (\<lambda>t. (t_name t, balance t))
        (filter (\<lambda>t. balance t > 1 / 100) totals))"
    unfolding calculateSettlements_sweep settle_reference_def
    by (rule sweep_names [THEN conjunct1], rule sweep_names [THEN conjunct2])
  then obtain u v where "u \<in> set totals" "t_name u = s_from s" "balance u < - (1 / 100)"
    and "v \<in> set totals" "t_name v = s_to s" "balance v > 1 / 100"
    by auto
  with same show "s_from s \<noteq> t_name t" and "s_to s \<noteq> t_name t"
    by fastforce+
next
  have "filter (\<lambda>t. balance t < - (1 / 100)) (filter (\<lambda>t. \<not> \<bar>balance t\<bar> \<le> 1 / 100) totals) =
      filter (\<lambda>t. balance t < - (1 / 100)) totals"
    and "filter (\<lambda>t. balance t > 1 / 100) (filter (\<lambda>t. \<not> \<bar>balance t\<bar> \<le> 1 / 100) totals) =
      filter (\<lambda>t. balance t > 1 / 100) totals"
    by (auto intro: filter_cong)
  then show "calculateSettlements (filter (\<lambda>t. \<not> \<bar>balance t\<bar> \<le> 1 / 100) totals) =
      calculateSettlements totals"
    by (simp only: calculateSettlements_def settle_start_def)
qed

text \<open>An instance of C7: the second sample list and its one transfer.\<close>

theorem transfers_only_between_debtors_and_creditors_witness:
  "calculateSettlements band_totals = [\<lparr>s_from = ''A'', s_to = ''C'', s_amount = 30\<rparr>] \<and>
   (\<exists>t\<in>set band_totals. t_name t = ''A'' \<and> balance t < - (1 / 100)) \<and>
   (\<exists>t\<in>set band_totals. t_name t = ''C'' \<and> balance t > 1 / 100) \<and>
   mk_totals ''B'' (1 / 200) \<in> set band_totals \<and>
   \<bar>balance (mk_totals ''B'' (1 / 200))\<bar> \<le> 1 / 100 \<and>
   ''A'' \<noteq> t_name (mk_totals ''B'' (1 / 200)) \<and> ''C'' \<noteq> t_name (mk_totals ''B'' (1 / 200)) \<and>
   calculateSettlements (filter (\<lambda>t. \<not> \<bar>balance t\<bar> \<le> 1 / 100) band_totals) =
     [\<lparr>s_from = ''A'', s_to = ''C'', s_amount = 30\<rparr>]"
proof -
  have out: "calculateSettlements band_totals = [\<lparr>s_from = ''A'', s_to = ''C'', s_amount = 30\<rparr>]"
    by (simp add: calculateSettlements_def settle_start_def band_totals_def mk_totals_def
        settle_loop.simps Let_def)
  have b: "mk_totals ''B'' (1 / 200) \<in> set band_totals"
    "\<bar>balance (mk_totals ''B'' (1 / 200))\<bar> \<le> 1 / 100"
    "\<forall>u\<in>set band_totals. t_name u = t_name (mk_totals ''B'' (1 / 200))
       \<longrightarrow> \<bar>balance u\<bar> \<le> 1 / 100"
    by (simp_all add: band_totals_def mk_totals_def)
  note inst = transfers_only_between_debtors_and_creditors [of band_totals]
  from inst have senders: "\<forall>s\<in>set (calculateSettlements band_totals).
      (\<exists>t\<in>set band_totals. t_name t = s_from s \<and> balance t < - (1 / 100)) \<and>
      (\<exists>t\<in>set band_totals. t_name t = s_to s \<and> balance t > 1 / 100)"
    by blast
  from inst b have absent: "\<forall>s\<in>set (calculateSettlements band_totals).
      s_from s \<noteq> t_name (mk_totals ''B'' (1 / 200)) \<and> s_to s \<noteq> t_name (mk_totals ''B'' (1 / 200))"
    by blast
  from inst have same: "calculateSettlements (filter (\<lambda>t. \<not> \<bar>balance t\<bar> \<le> 1 / 100) band_totals) =
      calculateSettlements band_totals"
    by blast
  from senders absent same b show ?thesis
    unfolding out by simp
qed

text \<open>
  Claim C8. For all people, bills and payments \<open>calculatePersonTotals\<close> returns a list
  and no failure; the list has one record per person, in the order of \<open>people\<close>, with
  the person's id, name and colour. In every record \<open>finalTotal\<close> is the sum of
  \<open>itemTotal\<close>, \<open>taxShare\<close> and \<open>serviceShare\<close>, \<open>amountPaid\<close> is the sum of the
  person's payments, and \<open>balance\<close> is \<open>amountPaid - finalTotal\<close>; a person whose id is
  in no \<open>sharedBy\<close> has all four totals zero.
\<close>

theorem calculatePersonTotals_total:
  "\<exists>totals. calculatePersonTotals people bills payments = Inr totals \<and>
     length totals = length people \<and>
     (\<forall>i<length people.
        t_id (totals ! i) = p_id (people ! i) \<and>
        t_name (totals ! i) = p_name (people ! i) \<and>
        t_color (totals ! i) = p_color (people ! i) \<and>
        finalTotal (totals ! i) =
          itemTotal (totals ! i) + taxShare (totals ! i) + serviceShare (totals ! i) \<and>
        amountPaid (totals ! i) =
          sum_list (map amount (filter (\<lambda>pay. personId pay = p_id (people ! i)) payments)) \<and>
        balance (totals ! i) = amountPaid (totals ! i) - finalTotal (totals ! i) \<and>
        ((\<forall>b\<in>set bills. \<forall>it\<in>set (items b). p_id (people ! i) \<notin> set (sharedBy it)) \<longrightarrow>
           itemTotal (totals ! i) = 0 \<and> taxShare (totals ! i) = 0 \<and>
           serviceShare (totals ! i) = 0 \<and> finalTotal (totals ! i) = 0))"
proof (intro exI conjI allI impI)
  show "calculatePersonTotals people bills payments =
      Inr (map (totals_of people bills payments) people)"
    by (rule calculatePersonTotals_closed)
  show "length (map (totals_of people bills payments) people) = length people"
    by simp
next
  fix i
  assume i: "i < length people"
  define t where "t = map (totals_of people bills payments) people ! i"
  have t: "t = totals_of people bills payments (people ! i)"
    using i by (simp add: t_def)
  show "t_id t = p_id (people ! i)" "t_name t = p_name (people ! i)"
    "t_color t = p_color (people ! i)"
    by (simp_all add: t totals_of_def)
  show "finalTotal t = itemTotal t + taxShare t + serviceShare t"
    by (simp add: t totals_of_def algebra_simps)
  show "amountPaid t =
      sum_list (map amount (filter (\<lambda>pay. personId pay = p_id (people ! i)) payments))"
    by (simp add: t totals_of_def paid_by_sum)
  show "balance t = amountPaid t - finalTotal t"
    by (simp add: t totals_of_def)
  assume "\<forall>b\<in>set bills. \<forall>it\<in>set (items b). p_id (people ! i) \<notin> set (sharedBy it)"
  then have "items_of bills (p_id (people ! i)) = 0 \<and> tax_of bills (p_id (people ! i)) = 0 \<and>
      service_of bills (p_id (people ! i)) = 0"
    by (rule no_share_zero)
  then show "itemTotal t = 0" "taxShare t = 0" "serviceShare t = 0" "finalTotal t = 0"
    by (simp_all add: t totals_of_def)
qed

text \<open>An instance of C8: the sample session, its first and its third person.\<close>

theorem calculatePersonTotals_total_witness:
  "\<exists>totals. calculatePersonTotals sample_people [sample_bill] sample_payments = Inr totals \<and>
     length totals = 3 \<and> t_id (totals ! 2) = ''p3'' \<and> t_name (totals ! 2) = ''C'' \<and>
     itemTotal (totals ! 2) = 0 \<and> taxShare (totals ! 2) = 0 \<and>
     serviceShare (totals ! 2) = 0 \<and> finalTotal (totals ! 2) = 0 \<and>
     amountPaid (totals ! 0) = 230 \<and> balance (totals ! 0) = 230 - finalTotal (totals ! 0) \<and>
     finalTotal (totals ! 0) =
       itemTotal (totals ! 0) + taxShare (totals ! 0) + serviceShare (totals ! 0)"
proof -
  from calculatePersonTotals_total [of sample_people "[sample_bill]" sample_payments]
  obtain totals where run: "calculatePersonTotals sample_people [sample_bill] sample_payments = Inr totals"
    and len: "length totals = length sample_people"
    and each: "\<forall>i<length sample_people.
        t_id (totals ! i) = p_id (sample_people ! i) \<and>
        t_name (totals ! i) = p_name (sample_people ! i) \<and>
        t_color (totals ! i) = p_color (sample_people ! i) \<and>
        finalTotal (totals ! i) =
          itemTotal (totals ! i) + taxShare (totals ! i) + serviceShare (totals ! i) \<and>
        amountPaid (totals ! i) =
          sum_list (map amount (filter (\<lambda>pay. personId pay = p_id (sample_people ! i)) sample_payments)) \<and>
        balance (totals ! i) = amountPaid (totals ! i) - finalTotal (totals ! i) \<and>
        ((\<forall>b\<in>set [sample_bill]. \<forall>it\<in>set (items b). p_id (sample_people ! i) \<notin> set (sharedBy it)) \<longrightarrow>
           itemTotal (totals ! i) = 0 \<and> taxShare (totals ! i) = 0 \<and>
           serviceShare (totals ! i) = 0 \<and> finalTotal (totals ! i) = 0)"
    by blast
  have l3: "length sample_people = 3"
    by (simp add: sample_people_def)
  have none: "\<forall>b\<in>set [sample_bill]. \<forall>it\<in>set (items b). p_id (sample_people ! 2) \<notin> set (sharedBy it)"
    by (simp add: sample_people_def sample_bill_def mk_item_def)
  from each l3 have e2: "t_id (totals ! 2) = p_id (sample_people ! 2) \<and>
        t_name (totals ! 2) = p_name (sample_people ! 2) \<and>
        ((\<forall>b\<in>set [sample_bill]. \<forall>it\<in>set (items b). p_id (sample_people ! 2) \<notin> set (sharedBy it)) \<longrightarrow>
           itemTotal (totals ! 2) = 0 \<and> taxShare (totals ! 2) = 0 \<and>
           serviceShare (totals ! 2) = 0 \<and> finalTotal (totals ! 2) = 0)"
    by simp
  with none have z: "t_id (totals ! 2) = ''p3''" "t_name (totals ! 2) = ''C''"
    "itemTotal (totals ! 2) = 0" "taxShare (totals ! 2) = 0"
    "serviceShare (totals ! 2) = 0" "finalTotal (totals ! 2) = 0"
    by (simp_all add: sample_people_def)
  from each l3 have e0: "finalTotal (totals ! 0) =
          itemTotal (totals ! 0) + taxShare (totals ! 0) + serviceShare (totals ! 0) \<and>
        amountPaid (totals ! 0) =
          sum_list (map amount (filter (\<lambda>pay. personId pay = p_id (sample_people ! 0)) sample_payments)) \<and>
        balance (totals ! 0) = amountPaid (totals ! 0) - finalTotal (totals ! 0)"
    by simp
  then have p: "amountPaid (totals ! 0) = 230"
    "balance (totals ! 0) = 230 - finalTotal (totals ! 0)"
    "finalTotal (totals ! 0) =
       itemTotal (totals ! 0) + taxShare (totals ! 0) + serviceShare (totals ! 0)"
    by (simp_all add: sample_people_def sample_payments_def)
  from run len l3 z p show ?thesis
    by auto
qed

text \<open>
  Claim C9. An id \<open>u\<close> of no person has no entry in the item totals of a bill, and a
  split price for an id without an entry leaves the totals as they are; the accumulator
  \<open>billAssignedSubtotal\<close> is the full assigned subtotal all the same, and
  \<open>calculatePersonTotals\<close> returns a list and no failure. With distinct person ids, the
  item totals of all people add up to the parts of the prices that go to ids of
  people; this is strictly less than the assigned subtotal when no price is negative
  and an item with a positive price names such an id \<open>u\<close> in its \<open>sharedBy\<close>.
\<close>

theorem unknown_sharer_share_is_dropped:
  "(u \<notin> p_id ` set people \<longrightarrow>
      fst (bill_items people bill) u = None \<and>
      (\<forall>sp m. m u = None \<longrightarrow> add_split sp u m = m)) \<and>
   snd (bill_items people bill) = assignedSubtotal bill \<and>
   (\<exists>totals. calculatePersonTotals people bills payments = Inr totals) \<and>
   (distinct (map p_id people) \<longrightarrow>
      (\<exists>shares. map (bill_shares people bill) people = map Inr shares \<and>
         sum_list (map fst shares) = sum_list (map (known_share people) (items bill)) \<and>
         ((\<forall>i\<in>set (items bill). 0 \<le> price i) \<and> it \<in> set (items bill) \<and> 0 < price it \<and>
          u \<in> set (sharedBy it) \<and> u \<notin> p_id ` set people \<longrightarrow>
            sum_list (map fst shares) < assignedSubtotal bill)))"
proof (intro conjI impI)
  assume "u \<notin> p_id ` set people"
  then show "fst (bill_items people bill) u = None"
    by (simp add: bill_items_closed)
  show "\<forall>sp m. m u = None \<longrightarrow> add_split sp u m = m"
    by (simp add: add_split_def)
next
  show "snd (bill_items people bill) = assignedSubtotal bill"
    by (simp add: bill_items_closed)
  show "\<exists>totals. calculatePersonTotals people bills payments = Inr totals"
    by (simp add: calculatePersonTotals_closed)
next
  assume d: "distinct (map p_id people)"
  define shares where "shares = map (\<lambda>p. id_shares bill (p_id p)) people"
  have run: "map (bill_shares people bill) people = map Inr shares"
    unfolding shares_def by (rule bill_shares_people)
  have known: "sum_list (map fst shares) = sum_list (map (known_share people) (items bill))"
    unfolding shares_def using d by (rule sum_item_totals_known)
  have less: "sum_list (map fst shares) < assignedSubtotal bill"
    if h: "(\<forall>i\<in>set (items bill). 0 \<le> price i) \<and> it \<in> set (items bill) \<and> 0 < price it \<and>
          u \<in> set (sharedBy it) \<and> u \<notin> p_id ` set people"
  proof -
    have "sum_list (map (known_share people) (items bill)) <
        sum_list (map (\<lambda>i. if sharedBy i \<noteq> [] then price i else 0) (items bill))"
    proof (rule sum_list_strict)
      show "\<forall>i\<in>set (items bill). known_share people i \<le> (if sharedBy i \<noteq> [] then price i else 0)"
        using h by (simp add: known_share_le)
      have "known_share people it < (if sharedBy it \<noteq> [] then price it else 0)"
        using h by (intro known_share_less [of it u]) simp_all
      with h show "\<exists>i\<in>set (items bill). known_share people i < (if sharedBy i \<noteq> [] then price i else 0)"
        by blast
    qed
    then show ?thesis
      by (simp only: known assignedSubtotal_if)
  qed
  from run known less show "\<exists>shares. map (bill_shares people bill) people = map Inr shares \<and>
         sum_list (map fst shares) = sum_list (map (known_share people) (items bill)) \<and>
         ((\<forall>i\<in>set (items bill). 0 \<le> price i) \<and> it \<in> set (items bill) \<and> 0 < price it \<and>
          u \<in> set (sharedBy it) \<and> u \<notin> p_id ` set people \<longrightarrow>
            sum_list (map fst shares) < assignedSubtotal bill)"
    by blast
qed

text \<open>An instance of C9: the bill whose item names an id of no person.\<close>

theorem unknown_sharer_share_is_dropped_witness:
  "distinct (map p_id sample_people) \<and>
   mk_item ''i1'' 90 [''p1'', ''zz''] \<in> set (items stray_bill) \<and>
   ''zz'' \<in> set (sharedBy (mk_item ''i1'' 90 [''p1'', ''zz''])) \<and>
   ''zz'' \<notin> p_id ` set sample_people \<and>
   fst (bill_items sample_people stray_bill) ''zz'' = None \<and>
   snd (bill_items sample_people stray_bill) = 90 \<and>
   map (bill_shares sample_people stray_bill) sample_people =
     map Inr [(45, 9 / 2, 0), (0, 0, 0), (0, 0, 0)] \<and>
   sum_list (map fst [(45, 9 / 2, 0), (0, 0, 0), (0, 0, 0 :: real) :: real \<times> real \<times> real])
     < assignedSubtotal stray_bill \<and>
   (\<exists>totals. calculatePersonTotals sample_people [stray_bill] sample_payments = Inr totals)"
proof -
  have d: "distinct (map p_id sample_people)"
    by (simp add: sample_people_def)
  have p: "\<forall>i\<in>set (items stray_bill). 0 \<le> price i"
    by (simp add: stray_bill_def mk_item_def)
  have i: "mk_item ''i1'' 90 [''p1'', ''zz''] \<in> set (items stray_bill)"
    by (simp add: stray_bill_def)
  have q: "0 < price (mk_item ''i1'' 90 [''p1'', ''zz''])"
    by (simp add: mk_item_def)
  have u: "''zz'' \<in> set (sharedBy (mk_item ''i1'' 90 [''p1'', ''zz'']))"
    by (simp add: mk_item_def)
  have n: "''zz'' \<notin> p_id ` set sample_people"
    by (simp add: sample_people_def)
  have a: "assignedSubtotal stray_bill = 90"
    by (simp add: assignedSubtotal_def stray_bill_def mk_item_def)
  have ev: "map (bill_shares sample_people stray_bill) sample_people =
     map Inr [(45, 9 / 2, 0), (0, 0, 0), (0, 0, 0)]"
    by (simp add: allocator_defs sample_people_def stray_bill_def mk_item_def)
  note inst = unknown_sharer_share_is_dropped
    [of "''zz''" sample_people stray_bill "[stray_bill]" sample_payments
      "mk_item ''i1'' 90 [''p1'', ''zz'']"]
  from inst d p i q u n obtain shares
    where "map (bill_shares sample_people stray_bill) sample_people = map Inr shares"
    and less: "sum_list (map fst shares) < assignedSubtotal stray_bill"
    by blast
  from this(1) ev have "map Inr shares =
      map (Inr :: real \<times> real \<times> real \<Rightarrow> failure + real \<times> real \<times> real)
        [(45, 9 / 2, 0), (0, 0, 0), (0, 0, 0)]"
    by simp
  then have "shares = [(45, 9 / 2, 0), (0, 0, 0), (0, 0, 0)]"
    by (simp only: inj_map_eq_map [OF inj_Inr])
  with less have l: "sum_list (map fst [(45, 9 / 2, 0), (0, 0, 0), (0, 0, 0 :: real) :: real \<times> real \<times> real])
     < assignedSubtotal stray_bill"
    by simp
  from inst n have none: "fst (bill_items sample_people stray_bill) ''zz'' = None"
    by blast
  from inst have sub: "snd (bill_items sample_people stray_bill) = assignedSubtotal stray_bill"
    by blast
  from inst have "\<exists>totals. calculatePersonTotals sample_people [stray_bill] sample_payments = Inr totals"
    by blast
  with d i u n none sub a ev l show ?thesis
    by simp
qed

text \<open>
  Claim C10. Every transfer that \<open>calculateSettlements\<close> emits has an amount of at
  least \<open>0.01\<close>: in every loop state reached while the loop runs, the remaining
  balances of the current debtor and of the current creditor are both at least \<open>0.01\<close>.
\<close>

theorem transfer_amounts_at_least_threshold:
  "(\<forall>s\<in>set (calculateSettlements totals). 1 / 100 \<le> s_amount s) \<and>
   (\<forall>k. (\<forall>j\<le>k. running ((settle_step ^^ j) (settle_start totals))) \<longrightarrow>
      1 / 100 \<le> current_debtor ((settle_step ^^ k) (settle_start totals)) \<and>
      1 / 100 \<le> current_creditor ((settle_step ^^ k) (settle_start totals)))"
proof (intro conjI allI impI)
  show "\<forall>s\<in>set (calculateSettlements totals). 1 / 100 \<le> s_amount s"
    unfolding calculateSettlements_sweep settle_reference_def
    by (rule sweep_amounts [OF debtor_entries_fresh creditor_entries_fresh])
next
  fix k
  assume run: "\<forall>j\<le>k. running ((settle_step ^^ j) (settle_start totals))"
  have start: "ahead_fresh (settle_start totals)"
    by (rule ahead_fresh_start)
  have "j \<le> k \<Longrightarrow> ahead_fresh ((settle_step ^^ j) (settle_start totals))" for j
  proof (induction j)
    case 0
    with start show ?case by simp
  next
    case (Suc j)
    then have "running ((settle_step ^^ j) (settle_start totals))"
      and "ahead_fresh ((settle_step ^^ j) (settle_start totals))"
      using run by simp_all
    then show ?case
      by (simp add: settle_step_fresh)
  qed
  then have fresh: "ahead_fresh ((settle_step ^^ k) (settle_start totals))"
    by simp
  from run have "running ((settle_step ^^ k) (settle_start totals))"
    by simp
  with fresh show "1 / 100 \<le> current_debtor ((settle_step ^^ k) (settle_start totals))"
    and "1 / 100 \<le> current_creditor ((settle_step ^^ k) (settle_start totals))"
    by (cases "(settle_step ^^ k) (settle_start totals)"; simp)+
qed

text \<open>An instance of C10 on the first sample list.\<close>

theorem transfer_amounts_at_least_threshold_witness:
  "calculateSettlements residue_totals =
     [\<lparr>s_from = ''A'', s_to = ''C'', s_amount = 1\<rparr>, \<lparr>s_from = ''B'', s_to = ''D'', s_amount = 1\<rparr>] \<and>
   1 / 100 \<le> s_amount \<lparr>s_from = ''A'', s_to = ''C'', s_amount = 1\<rparr> \<and>
   1 / 100 \<le> s_amount \<lparr>s_from = ''B'', s_to = ''D'', s_amount = 1\<rparr> \<and>
   running (settle_start residue_totals) \<and>
   1 / 100 \<le> current_debtor (settle_start residue_totals) \<and>
   1 / 100 \<le> current_creditor (settle_start residue_totals)"
proof -
  have out: "calculateSettlements residue_totals =
     [\<lparr>s_from = ''A'', s_to = ''C'', s_amount = 1\<rparr>, \<lparr>s_from = ''B'', s_to = ''D'', s_amount = 1\<rparr>]"
    by (simp add: calculateSettlements_def settle_start_def residue_totals_def mk_totals_def
        settle_loop.simps Let_def)
  have run: "running (settle_start residue_totals)"
    by (simp add: settle_start_def residue_totals_def mk_totals_def)
  then have run0: "\<forall>j\<le>0. running ((settle_step ^^ j) (settle_start residue_totals))"
    by simp
  note inst = transfer_amounts_at_least_threshold [of residue_totals]
  from inst have "\<forall>s\<in>set (calculateSettlements residue_totals). 1 / 100 \<le> s_amount s"
    by blast
  then have amounts: "1 / 100 \<le> s_amount \<lparr>s_from = ''A'', s_to = ''C'', s_amount = 1\<rparr>"
    "1 / 100 \<le> s_amount \<lparr>s_from = ''B'', s_to = ''D'', s_amount = 1\<rparr>"
    unfolding out by simp_all
  from inst run0 have "1 / 100 \<le> current_debtor ((settle_step ^^ 0) (settle_start residue_totals)) \<and>
      1 / 100 \<le> current_creditor ((settle_step ^^ 0) (settle_start residue_totals))"
    by blast
  then have "1 / 100 \<le> current_debtor (settle_start residue_totals)"
    "1 / 100 \<le> current_creditor (settle_start residue_totals)"
    by simp_all
  with out amounts run show ?thesis
    by blast
qed

end
